theory Spec2Isabelle
  imports Main "HOL-Library.Word" "HOL-Library.Multiset"
begin

unbundle bit_operations_syntax

section \<open>The data model of priorityq.h\<close>

text \<open>
  A \<^verbatim>\<open>priority_t\<close> is caller-owned storage; the queue links it into one of its rings
  through the embedded node. An item is named by its address. A ring (a sentinel of
  \<^verbatim>\<open>priorityq_t\<close> with the nodes linked behind it) is represented by the list of the
  addresses met when following \<^verbatim>\<open>next\<close> from the sentinel until the sentinel is met
  again; \<^verbatim>\<open>list_nq\<close> links at the tail of that list and \<^verbatim>\<open>list_dq\<close> unlinks its head.
  Of a node's two pointers the code only ever tests \<^verbatim>\<open>next\<close> against \<^verbatim>\<open>NULL\<close>
  (\<^verbatim>\<open>node_in_list\<close>); the field \<open>linked\<close> records the outcome of that test.
  The payload pointer \<^verbatim>\<open>data\<close> is never read by the queue and is left out.
\<close>

type_synonym addr = nat

datatype loc = LOC_NONE | LOC_DONE | LOC_IMED | LOC_Q

record priority =
  linked :: bool
  info_abs :: "8 word"
  info_rel :: "8 word"
  info_loc :: loc
  info_urg :: "8 word"

record priorityq =
  pc :: "8 word"
  counter_imed :: "32 word"
  size_pq :: "32 word"
  size_done :: "32 word"
  size_imed :: "32 word"
  size_q :: "32 word"
  done_list :: "addr list"
  immediate :: "addr list"
  processing :: "addr list"
  bins :: "addr list list"

text \<open>The queue together with the memory that holds the caller's items.\<close>

record pq_state =
  qu :: priorityq
  mem :: "addr \<Rightarrow> priority"

text \<open>
  What C leaves undefined is an error value of the model: \<^verbatim>\<open>__builtin_clz(0)\<close>,
  \<^verbatim>\<open>list_dq_quick\<close> on an empty ring (it would unlink the sentinel itself), and an index
  outside \<^verbatim>\<open>bins[PQ_BINS]\<close>. \<open>Out_of_fuel\<close> is the loop of \<^verbatim>\<open>priorityq_dequeue\<close>
  still running after the given number of iterations.
\<close>

datatype error = Clz_of_zero | Dq_quick_on_empty | Bin_out_of_range | Out_of_fuel

definition PRIORITY_URGENT :: "8 word" where
  "PRIORITY_URGENT = 128"

definition PQ_BINS :: nat where
  "PQ_BINS = 8"

definition PQ_MASK :: "8 word" where
  "PQ_MASK = 127"

section \<open>Helper functions\<close>

text \<open>\<^verbatim>\<open>__builtin_clz\<close>: the number of zero bits above the highest set bit of a 32-bit value.\<close>

fun clz_below :: "nat \<Rightarrow> 32 word \<Rightarrow> nat" where
  "clz_below 0 n = 0"
| "clz_below (Suc k) n = (if bit n k then 0 else Suc (clz_below k n))"

definition builtin_clz :: "32 word \<Rightarrow> nat" where
  "builtin_clz n = clz_below 32 n"

definition get_high_index32 :: "32 word \<Rightarrow> error + nat" where
  "get_high_index32 n = (if n = 0 then Inl Clz_of_zero else Inr (31 - builtin_clz n))"

section \<open>Node and list functions\<close>

definition node_in_list :: "pq_state \<Rightarrow> addr \<Rightarrow> bool" where
  "node_in_list s n = linked (mem s n)"

definition node_clear :: "addr \<Rightarrow> pq_state \<Rightarrow> pq_state" where
  "node_clear n s = s\<lparr>mem := (mem s)(n := (mem s n)\<lparr>linked := False\<rparr>)\<rparr>"

text \<open>
  \<^verbatim>\<open>node_unlink_only\<close> joins the two neighbours of the node; whichever ring held the node
  loses it, and the node keeps its own (stale) pointers.
\<close>

definition node_unlink_only :: "addr \<Rightarrow> pq_state \<Rightarrow> pq_state" where
  "node_unlink_only n s = s\<lparr>qu := (qu s)\<lparr>
      done_list := remove1 n (done_list (qu s)),
      immediate := remove1 n (immediate (qu s)),
      processing := remove1 n (processing (qu s)),
      bins := map (remove1 n) (bins (qu s))\<rparr>\<rparr>"

definition node_unlink :: "addr \<Rightarrow> pq_state \<Rightarrow> pq_state" where
  "node_unlink n s = node_clear n (node_unlink_only n s)"

definition set_linked :: "addr \<Rightarrow> pq_state \<Rightarrow> pq_state" where
  "set_linked n s = s\<lparr>mem := (mem s)(n := (mem s n)\<lparr>linked := True\<rparr>)\<rparr>"

text \<open>\<^verbatim>\<open>list_nq\<close> on each of the rings of the queue.\<close>

definition list_nq_done :: "addr \<Rightarrow> pq_state \<Rightarrow> pq_state" where
  "list_nq_done n s =
     set_linked n (s\<lparr>qu := (qu s)\<lparr>done_list := done_list (qu s) @ [n]\<rparr>\<rparr>)"

definition list_nq_immediate :: "addr \<Rightarrow> pq_state \<Rightarrow> pq_state" where
  "list_nq_immediate n s =
     set_linked n (s\<lparr>qu := (qu s)\<lparr>immediate := immediate (qu s) @ [n]\<rparr>\<rparr>)"

definition list_nq_bin :: "nat \<Rightarrow> addr \<Rightarrow> pq_state \<Rightarrow> error + pq_state" where
  "list_nq_bin i n s =
     (if i < length (bins (qu s))
      then Inr (set_linked n (s\<lparr>qu := (qu s)\<lparr>bins := (bins (qu s))[i := bins (qu s) ! i @ [n]]\<rparr>\<rparr>))
      else Inl Bin_out_of_range)"

text \<open>\<^verbatim>\<open>list_append(&q->processing, q->bins + i)\<close>: splice bin \<open>i\<close> behind the processing ring.\<close>

definition list_append_bin :: "nat \<Rightarrow> priorityq \<Rightarrow> error + priorityq" where
  "list_append_bin i q =
     (if i < length (bins q)
      then Inr (q\<lparr>processing := processing q @ bins q ! i, bins := (bins q)[i := []]\<rparr>)
      else Inl Bin_out_of_range)"

definition list_has_bin :: "priorityq \<Rightarrow> nat \<Rightarrow> bool" where
  "list_has_bin q i = (i < length (bins q) \<and> bins q ! i \<noteq> [])"

section \<open>Priority functions\<close>

definition priority_init :: priority where
  "priority_init = \<lparr>linked = False, info_abs = 0, info_rel = 0, info_loc = LOC_NONE, info_urg = 0\<rparr>"

definition priority_set :: "pq_state \<Rightarrow> addr \<Rightarrow> 8 word \<Rightarrow> pq_state" where
  "priority_set s p priority =
     (if PRIORITY_URGENT \<noteq> priority
      then s\<lparr>mem := (mem s)(p := (mem s p)\<lparr>info_abs := priority, info_urg := 0\<rparr>)\<rparr>
      else s\<lparr>mem := (mem s)(p := (mem s p)\<lparr>info_abs := 0, info_urg := 1\<rparr>)\<rparr>)"

definition priority_value :: "pq_state \<Rightarrow> addr \<Rightarrow> 8 word" where
  "priority_value s p = info_abs (mem s p)"

definition priority_is_active :: "pq_state \<Rightarrow> addr \<Rightarrow> bool" where
  "priority_is_active s p = node_in_list s p"

section \<open>Priority queue functions (internal)\<close>

definition priorityq_decrement_queue :: "pq_state \<Rightarrow> addr \<Rightarrow> pq_state" where
  "priorityq_decrement_queue s p =
     (let l = info_loc (mem s p) in
      if l = LOC_DONE then s\<lparr>qu := (qu s)\<lparr>size_done := size_done (qu s) - 1\<rparr>\<rparr>
      else if l = LOC_IMED then s\<lparr>qu := (qu s)\<lparr>size_imed := size_imed (qu s) - 1\<rparr>\<rparr>
      else s\<lparr>qu := (qu s)\<lparr>size_q := size_q (qu s) - 1\<rparr>\<rparr>)"

text \<open>
  Bucket placement. The value \<^verbatim>\<open>apc\<close> that the wrapping branch computes is never used and
  is not modelled. The operands are \<^verbatim>\<open>uint8_t\<close>, widened to the 32-bit parameter.
\<close>

definition priorityq_nq_only :: "pq_state \<Rightarrow> addr \<Rightarrow> error + pq_state" where
  "priorityq_nq_only s p =
     (let c = pc (qu s);
          rp = info_rel (mem s p);
          nrp = rp - 1;
          r = (if nrp \<ge> c then get_high_index32 (ucast (rp XOR c))
               else get_high_index32 (ucast (rp AND c)))
      in case r of Inl e \<Rightarrow> Inl e | Inr index \<Rightarrow> list_nq_bin index p s)"

text \<open>The search loop of the counter advance; it returns the final \<^verbatim>\<open>index\<close> and \<^verbatim>\<open>msb\<close>.\<close>

function advance_search :: "priorityq \<Rightarrow> nat \<Rightarrow> 8 word \<Rightarrow> nat \<times> 8 word" where
  "advance_search q index msb =
     (if index < PQ_BINS - 1 \<and> \<not> (list_has_bin q index \<and> (NOT (pc q) AND msb) \<noteq> 0)
      then advance_search q (index + 1) (push_bit 1 msb)
      else (index, msb))"
  by pat_completeness auto
termination
  by (relation "measure (\<lambda>(q, index, msb). PQ_BINS - 1 - index)") auto

text \<open>The splice loop of the counter advance, over the shifted \<^verbatim>\<open>bits\<close>.\<close>

function advance_splice :: "8 word \<Rightarrow> nat \<Rightarrow> priorityq \<Rightarrow> error + priorityq" where
  "advance_splice bits index q =
     (if bits \<noteq> 0
      then (if 1 AND bits \<noteq> 0
            then (case list_append_bin index q of
                    Inl e \<Rightarrow> Inl e
                  | Inr q' \<Rightarrow> advance_splice (drop_bit 1 bits) (index + 1) q')
            else advance_splice (drop_bit 1 bits) (index + 1) q)
      else Inr q)"
  by pat_completeness auto
termination
proof (relation "measure (\<lambda>(bits, index, q). unat bits)")
  show "wf (measure (\<lambda>(bits, index, q). unat (bits :: 8 word)))"
    by simp
next
  fix bits :: "8 word" and index :: nat and q x2 :: priorityq
  assume "bits \<noteq> 0"
  then have "unat bits \<noteq> 0"
    by (simp add: unat_eq_0)
  then have "unat bits div 2 < unat bits"
    by simp
  then have "unat (drop_bit 1 bits) < unat bits"
    by (simp add: drop_bit_eq_div unat_div)
  then show "((drop_bit 1 bits, index + 1, x2), bits, index, q) \<in> measure (\<lambda>(bits, index, q). unat bits)"
    and "((drop_bit 1 bits, index + 1, q), bits, index, q) \<in> measure (\<lambda>(bits, index, q). unat bits)"
    by simp_all
qed

definition priorityq_advance_priority_counter :: "priorityq \<Rightarrow> error + priorityq" where
  "priorityq_advance_priority_counter q =
     (let c = pc q;
          (index, msb) = advance_search q 0 1;
          newpc = (c OR (msb - 1)) + 1
      in case list_append_bin index q of
           Inl e \<Rightarrow> Inl e
         | Inr q1 \<Rightarrow>
             (let index1 = index + 1;
                  bits = ((NOT PQ_MASK AND (c XOR newpc)) OR (PQ_MASK AND (NOT c AND newpc)))
              in case advance_splice (drop_bit index1 bits) index1 q1 of
                   Inl e \<Rightarrow> Inl e
                 | Inr q2 \<Rightarrow> Inr (q2\<lparr>pc := newpc\<rparr>)))"

text \<open>\<^verbatim>\<open>list_nq(&q->done, list_dq_quick(&q->immediate))\<close> with the two counter updates.\<close>

definition immediate_to_done :: "priorityq \<Rightarrow> error + priorityq" where
  "immediate_to_done q =
     (case immediate q of
        [] \<Rightarrow> Inl Dq_quick_on_empty
      | n # rest \<Rightarrow> Inr (q\<lparr>immediate := rest, done_list := done_list q @ [n],
                           size_imed := size_imed q - 1, size_done := size_done q + 1\<rparr>))"

definition priorityq_advance_immediates :: "priorityq \<Rightarrow> error + priorityq" where
  "priorityq_advance_immediates q =
     (if size_imed q \<noteq> 0
      then (if counter_imed q \<noteq> 0
            then (case immediate_to_done q of
                    Inl e \<Rightarrow> Inl e
                  | Inr q1 \<Rightarrow>
                      (if size_done q1 < size_imed q1
                       then (if size_imed q1 AND 1 = 0
                             then (case immediate_to_done q1 of
                                     Inl e \<Rightarrow> Inl e
                                   | Inr q2 \<Rightarrow> Inr (q2\<lparr>counter_imed := drop_bit 1 (counter_imed q2)\<rparr>))
                             else Inr (q1\<lparr>counter_imed := counter_imed q1 - 1\<rparr>))
                       else Inr (q1\<lparr>counter_imed := drop_bit 2 (counter_imed q1)\<rparr>)))
            else (case get_high_index32 (size_imed q) of
                    Inl e \<Rightarrow> Inl e
                  | Inr h \<Rightarrow> Inr (q\<lparr>counter_imed := of_nat (h + 1)\<rparr>)))
      else Inr q)"

text \<open>One pass of the body of the \<^verbatim>\<open>do ... while\<close> loop that drains the processing ring.\<close>

definition processing_step :: "pq_state \<Rightarrow> error + pq_state" where
  "processing_step s =
     (case processing (qu s) of
        [] \<Rightarrow> Inl Dq_quick_on_empty
      | p # rest \<Rightarrow>
          (let s1 = s\<lparr>qu := (qu s)\<lparr>processing := rest\<rparr>\<rparr> in
           if info_rel (mem s1 p) \<noteq> pc (qu s1)
           then priorityq_nq_only s1 p
           else Inr (list_nq_immediate p
                  (s1\<lparr>qu := (qu s1)\<lparr>size_q := size_q (qu s1) - 1, size_imed := size_imed (qu s1) + 1\<rparr>,
                      mem := (mem s1)(p := (mem s1 p)\<lparr>info_loc := LOC_IMED\<rparr>)\<rparr>))))"

text \<open>The loop itself; \<open>limit_q\<close> is at least 1 on entry and is counted down.\<close>

fun processing_loop :: "nat \<Rightarrow> pq_state \<Rightarrow> error + pq_state" where
  "processing_loop 0 s = Inr s"
| "processing_loop (Suc l) s =
     (case processing_step s of
        Inl e \<Rightarrow> Inl e
      | Inr s1 \<Rightarrow> (if l \<noteq> 0 \<and> processing (qu s1) \<noteq> [] then processing_loop l s1 else Inr s1))"

definition priorityq_advance_priority_queue :: "pq_state \<Rightarrow> error + pq_state" where
  "priorityq_advance_priority_queue s =
     (if size_q (qu s) \<noteq> 0
      then (if processing (qu s) \<noteq> []
            then (case get_high_index32 (size_q (qu s)) of
                    Inl e \<Rightarrow> Inl e
                  | Inr h \<Rightarrow> processing_loop (h + 1) s)
            else (case priorityq_advance_priority_counter (qu s) of
                    Inl e \<Rightarrow> Inl e
                  | Inr q' \<Rightarrow> Inr (s\<lparr>qu := q'\<rparr>)))
      else Inr s)"

section \<open>Priority queue functions\<close>

definition priorityq_init :: priorityq where
  "priorityq_init = \<lparr>pc = 0, counter_imed = 0, size_pq = 0, size_done = 0, size_imed = 0,
     size_q = 0, done_list = [], immediate = [], processing = [], bins = replicate PQ_BINS []\<rparr>"

definition priorityq_size :: "pq_state \<Rightarrow> 32 word" where
  "priorityq_size s = size_pq (qu s)"

text \<open>The three placements of a priority that is not (or no longer) linked.\<close>

definition enqueue_fresh :: "pq_state \<Rightarrow> addr \<Rightarrow> error + pq_state" where
  "enqueue_fresh s p =
     (let r =
        (if info_abs (mem s p) \<noteq> 0
         then priorityq_nq_only
                (s\<lparr>qu := (qu s)\<lparr>size_q := size_q (qu s) + 1\<rparr>,
                   mem := (mem s)(p := (mem s p)\<lparr>info_rel := info_abs (mem s p) + pc (qu s),
                                                  info_loc := LOC_Q\<rparr>)\<rparr>) p
         else if info_urg (mem s p) \<noteq> 0
         then Inr (list_nq_done p
                (s\<lparr>qu := (qu s)\<lparr>size_done := size_done (qu s) + 1\<rparr>,
                   mem := (mem s)(p := (mem s p)\<lparr>info_rel := pc (qu s), info_loc := LOC_DONE\<rparr>)\<rparr>))
         else Inr (list_nq_immediate p
                (s\<lparr>qu := (qu s)\<lparr>size_imed := size_imed (qu s) + 1\<rparr>,
                   mem := (mem s)(p := (mem s p)\<lparr>info_rel := pc (qu s), info_loc := LOC_IMED\<rparr>)\<rparr>)))
      in case r of
           Inl e \<Rightarrow> Inl e
         | Inr s' \<Rightarrow> Inr (s'\<lparr>qu := (qu s')\<lparr>size_pq := size_pq (qu s') + 1\<rparr>\<rparr>))"

definition priorityq_enqueue :: "pq_state \<Rightarrow> addr \<Rightarrow> error + pq_state" where
  "priorityq_enqueue s p =
     (if info_loc (mem s p) = LOC_DONE then Inr s
      else if node_in_list s p
      then (if info_urg (mem s p) \<noteq> 0
            then (let s1 = list_nq_done p (node_unlink_only p s);
                      s2 = (if info_loc (mem s1 p) = LOC_IMED
                            then s1\<lparr>qu := (qu s1)\<lparr>size_imed := size_imed (qu s1) - 1\<rparr>\<rparr>
                            else s1\<lparr>qu := (qu s1)\<lparr>size_q := size_q (qu s1) - 1\<rparr>\<rparr>)
                  in Inr (s2\<lparr>qu := (qu s2)\<lparr>size_done := size_done (qu s2) + 1\<rparr>,
                            mem := (mem s2)(p := (mem s2 p)\<lparr>info_loc := LOC_DONE\<rparr>)\<rparr>))
            else if info_loc (mem s p) = LOC_IMED
                    \<or> info_abs (mem s p) \<ge> info_rel (mem s p) - pc (qu s)
            then Inr s
            else (let s1 = node_unlink_only p s
                  in enqueue_fresh
                       (s1\<lparr>qu := (qu s1)\<lparr>size_q := size_q (qu s1) - 1,
                                         size_pq := size_pq (qu s1) - 1\<rparr>\<rparr>) p))
      else enqueue_fresh s p)"

text \<open>
  The loop of \<^verbatim>\<open>priorityq_dequeue\<close>, with the number of iterations it may still take.
  \<^verbatim>\<open>list_dq(&q->done)\<close> unlinks and clears the head of the done ring, if there is one.
\<close>

fun dequeue_loop :: "nat \<Rightarrow> pq_state \<Rightarrow> error + (addr \<times> pq_state)" where
  "dequeue_loop 0 s = Inl Out_of_fuel"
| "dequeue_loop (Suc fuel) s =
     (case priorityq_advance_immediates (qu s) of
        Inl e \<Rightarrow> Inl e
      | Inr q1 \<Rightarrow>
          (case priorityq_advance_priority_queue (s\<lparr>qu := q1\<rparr>) of
             Inl e \<Rightarrow> Inl e
           | Inr s2 \<Rightarrow>
               (case done_list (qu s2) of
                  [] \<Rightarrow> dequeue_loop fuel s2
                | n # rest \<Rightarrow> Inr (n, node_clear n (s2\<lparr>qu := (qu s2)\<lparr>done_list := rest\<rparr>\<rparr>)))))"

definition priorityq_dequeue :: "nat \<Rightarrow> pq_state \<Rightarrow> error + (addr option \<times> pq_state)" where
  "priorityq_dequeue fuel s =
     (if size_pq (qu s) \<noteq> 0
      then (case dequeue_loop fuel s of
              Inl e \<Rightarrow> Inl e
            | Inr (n, s1) \<Rightarrow>
                Inr (Some n,
                     s1\<lparr>qu := (qu s1)\<lparr>size_done := size_done (qu s1) - 1,
                                       size_pq := size_pq (qu s1) - 1\<rparr>,
                        mem := (mem s1)(n := (mem s1 n)\<lparr>info_loc := LOC_NONE\<rparr>)\<rparr>))
      else Inr (None, s))"

definition priorityq_remove :: "pq_state \<Rightarrow> addr \<Rightarrow> pq_state" where
  "priorityq_remove s p =
     (if node_in_list s p
      then (let s1 = priorityq_decrement_queue (node_unlink p s) p;
                s2 = s1\<lparr>qu := (qu s1)\<lparr>size_pq := size_pq (qu s1) - 1\<rparr>\<rparr>
            in s2\<lparr>mem := (mem s2)(p := (mem s2 p)\<lparr>info_loc := LOC_NONE\<rparr>)\<rparr>)
      else s)"

text \<open>The testing accessors \<^verbatim>\<open>priorityq_count_q\<close> and \<^verbatim>\<open>priorityq_count_all\<close>.\<close>

definition priorityq_count_q :: "priorityq \<Rightarrow> nat" where
  "priorityq_count_q q = length (processing q) + sum_list (map length (bins q))"

definition priorityq_count_all :: "priorityq \<Rightarrow> nat" where
  "priorityq_count_all q =
     length (done_list q) + length (immediate q) + priorityq_count_q q"

text \<open>A freshly initialised queue; every item of the memory has been through \<^verbatim>\<open>priority_init\<close>.\<close>

definition init_state :: pq_state where
  "init_state = \<lparr>qu = priorityq_init, mem = (\<lambda>_. priority_init)\<rparr>"

section \<open>Sequences of operations\<close>

text \<open>
  What a caller can do with a queue and its items. \<open>run\<close> collects the results of the
  dequeue calls, in order; it stops at the first error.
\<close>

datatype op = Set addr "8 word" | Enqueue addr | Dequeue | Remove addr

fun apply_op :: "nat \<Rightarrow> pq_state \<Rightarrow> op \<Rightarrow> error + (addr option list \<times> pq_state)" where
  "apply_op fuel s (Set a p) = Inr ([], priority_set s a p)"
| "apply_op fuel s (Enqueue a) =
     (case priorityq_enqueue s a of Inl e \<Rightarrow> Inl e | Inr s' \<Rightarrow> Inr ([], s'))"
| "apply_op fuel s Dequeue =
     (case priorityq_dequeue fuel s of Inl e \<Rightarrow> Inl e | Inr (r, s') \<Rightarrow> Inr ([r], s'))"
| "apply_op fuel s (Remove a) = Inr ([], priorityq_remove s a)"

fun run :: "nat \<Rightarrow> op list \<Rightarrow> pq_state \<Rightarrow> error + (addr option list \<times> pq_state)" where
  "run fuel [] s = Inr ([], s)"
| "run fuel (x # xs) s =
     (case apply_op fuel s x of
        Inl e \<Rightarrow> Inl e
      | Inr (r, s') \<Rightarrow>
          (case run fuel xs s' of Inl e \<Rightarrow> Inl e | Inr (rs, s'') \<Rightarrow> Inr (r @ rs, s'')))"


section \<open>Urgent items only\<close>






text \<open>The outputs of a run and the queue it ends with, without the memory of the items.\<close>

definition run_queue :: "nat \<Rightarrow> op list \<Rightarrow> pq_state \<Rightarrow> error + (addr option list \<times> priorityq)" where
  "run_queue fuel ops s = (case run fuel ops s of Inl e \<Rightarrow> Inl e | Inr (outs, s') \<Rightarrow> Inr (outs, qu s'))"

section \<open>The counter advance as the specification words it\<close>

definition lowest_ready_bin :: "priorityq \<Rightarrow> nat" where
  "lowest_ready_bin q =
     (case List.find (\<lambda>i. bins q ! i \<noteq> [] \<and> \<not> bit (pc q) i) [0..<7] of
        None \<Rightarrow> 7
      | Some i \<Rightarrow> i)"

definition advanced_pc :: "8 word \<Rightarrow> nat \<Rightarrow> 8 word" where
  "advanced_pc c i = (c OR (2 ^ i - 1)) + 1"

definition fired_bins :: "8 word \<Rightarrow> 8 word \<Rightarrow> nat \<Rightarrow> nat list" where
  "fired_bins c c' i =
     filter (\<lambda>j. j = i \<or> (i < j \<and> j < 7 \<and> \<not> bit c j \<and> bit c' j)
                       \<or> (i < j \<and> j = 7 \<and> bit c 7 \<noteq> bit c' 7)) [0..<8]"

definition splice_bins :: "nat list \<Rightarrow> priorityq \<Rightarrow> priorityq" where
  "splice_bins js q =
     q\<lparr>processing := processing q @ concat (map (\<lambda>j. bins q ! j) js),
       bins := map (\<lambda>j. if j \<in> set js then [] else bins q ! j) [0..<8]\<rparr>"

text \<open>Splicing the bins of a list of indices one after the other (used in proofs).\<close>

fun splice_seq :: "nat list \<Rightarrow> priorityq \<Rightarrow> priorityq" where
  "splice_seq [] q = q"
| "splice_seq (j # js) q =
     splice_seq js (q\<lparr>processing := processing q @ bins q ! j, bins := (bins q)[j := []]\<rparr>)"

section \<open>Well-formed states\<close>

text \<open>The nodes of the bucket bank (the processing ring and the bins) and of the whole queue.\<close>

definition q_nodes :: "priorityq \<Rightarrow> addr list" where
  "q_nodes q = processing q @ concat (bins q)"

definition all_nodes :: "priorityq \<Rightarrow> addr list" where
  "all_nodes q = (done_list q @ immediate q) @ q_nodes q"

text \<open>
  What every completed operation keeps: no node is linked twice, the linked items are the
  nodes of the rings, the items tagged \<open>LOC_Q\<close> are the nodes of the bucket bank, the items
  tagged \<open>LOC_NONE\<close> are the unlinked ones, and the counters add up. (An item of the done
  ring may still be tagged \<open>LOC_IMED\<close>: the immediate drain does not retag.)
\<close>

definition wf_state :: "pq_state \<Rightarrow> bool" where
  "wf_state s \<longleftrightarrow>
     length (bins (qu s)) = 8
     \<and> distinct (all_nodes (qu s))
     \<and> (\<forall>a. linked (mem s a) = (a \<in> set (all_nodes (qu s))))
     \<and> (\<forall>a. (info_loc (mem s a) = LOC_Q) = (a \<in> set (q_nodes (qu s))))
     \<and> (\<forall>a. (info_loc (mem s a) = LOC_NONE) = (a \<notin> set (all_nodes (qu s))))
     \<and> size_q (qu s) = of_nat (length (q_nodes (qu s)))
     \<and> size_pq (qu s) = size_done (qu s) + size_imed (qu s) + size_q (qu s)"


section \<open>Bucket placement while the counter has not passed the relative priority\<close>

text \<open>
  \<open>top_diff c r i\<close>: bit \<open>i\<close> is the highest bit in which \<open>r\<close> and \<open>c\<close> differ, and
  there \<open>r\<close> has the 1.
\<close>

definition top_diff :: "8 word \<Rightarrow> 8 word \<Rightarrow> nat \<Rightarrow> bool" where
  "top_diff c r i \<longleftrightarrow> bit r i \<and> \<not> bit c i \<and> (\<forall>j>i. bit r j = bit c j)"

section \<open>The queue while no relative priority has wrapped around\<close>

definition rel_of :: "pq_state \<Rightarrow> addr \<Rightarrow> 8 word" where
  "rel_of s a = info_rel (mem s a)"

text \<open>
  \<open>ahead_state\<close>: a well-formed state whose counters count the rings exactly, in which every
  item of a bin sits in the bin of the highest bit in which its relative priority exceeds the
  counter, every item of the processing ring has a relative priority that the counter has
  not passed, every item of the done and immediate rings has one that the counter has
  reached, and the relative priorities of the bucket bank are pairwise distinct.
\<close>

definition ahead_state :: "pq_state \<Rightarrow> bool" where
  "ahead_state s \<longleftrightarrow>
     wf_state s
     \<and> length (all_nodes (qu s)) < 2 ^ 32
     \<and> size_done (qu s) = of_nat (length (done_list (qu s)))
     \<and> size_imed (qu s) = of_nat (length (immediate (qu s)))
     \<and> (\<forall>i<8. \<forall>a\<in>set (bins (qu s) ! i). top_diff (pc (qu s)) (rel_of s a) i)
     \<and> (\<forall>a\<in>set (processing (qu s)). pc (qu s) \<le> rel_of s a)
     \<and> (\<forall>a\<in>set (done_list (qu s) @ immediate (qu s)). rel_of s a \<le> pc (qu s))
     \<and> distinct (map (rel_of s) (q_nodes (qu s)))"

text \<open>The order in which the items of such a state are going to leave.\<close>

definition out_order :: "pq_state \<Rightarrow> addr list" where
  "out_order s = done_list (qu s) @ immediate (qu s) @ sort_key (rel_of s) (q_nodes (qu s))"

text \<open>Measures of the work that the loop of \<^verbatim>\<open>priorityq_dequeue\<close> has left.\<close>

definition work_left :: "pq_state \<Rightarrow> nat" where
  "work_left s = sum_list (map (\<lambda>a. unat (rel_of s a) - unat (pc (qu s))) (q_nodes (qu s)))"

definition processing_left :: "pq_state \<Rightarrow> nat" where
  "processing_left s = length (processing (qu s))"

definition imed_idle :: "pq_state \<Rightarrow> nat" where
  "imed_idle s = (if immediate (qu s) \<noteq> [] \<and> counter_imed (qu s) = 0 then 1 else 0)"

(*DEFS_END*)

section \<open>Removal\<close>

lemma remove_unlinked: "\<not> linked (mem s p) \<Longrightarrow> priorityq_remove s p = s"
  by (simp add: priorityq_remove_def node_in_list_def)

lemma remove_clears: "\<not> linked (mem (priorityq_remove s p) p)"
  by (simp add: priorityq_remove_def node_in_list_def Let_def priorityq_decrement_queue_def
      node_unlink_def node_clear_def node_unlink_only_def)

text \<open>
  C10: \<^verbatim>\<open>priorityq_remove\<close> is idempotent. For every queue and every item, a second
  removal right after the first changes neither the queue nor the item; and removing an
  item that is in no list (location \<open>LOC_NONE\<close>, null links) changes nothing at all.
\<close>

theorem priorityq_remove_idempotent:
  "priorityq_remove (priorityq_remove s p) p = priorityq_remove s p
   \<and> (info_loc (mem s p) = LOC_NONE \<and> \<not> linked (mem s p) \<longrightarrow> priorityq_remove s p = s)"
  using remove_clears [of s p] remove_unlinked by blast

theorem priorityq_remove_idempotent_witness:
  "info_loc (mem init_state 0) = LOC_NONE \<and> \<not> linked (mem init_state 0)
   \<and> priorityq_remove init_state 0 = init_state
   \<and> priorityq_remove (priorityq_remove init_state 0) 0 = priorityq_remove init_state 0"
  using priorityq_remove_idempotent [of init_state 0]
  by (simp add: init_state_def priority_init_def)

section \<open>Urgent items are served first-in first-out\<close>






lemma of_nat_32_neq_0: "0 < n \<Longrightarrow> n < 2 ^ 32 \<Longrightarrow> (of_nat n :: 32 word) \<noteq> 0"
  by (auto simp add: word_of_nat_eq_0_iff dest: dvd_imp_le)




lemma run_append:
  "run fuel (xs @ ys) s =
     (case run fuel xs s of
        Inl e \<Rightarrow> Inl e
      | Inr (r, s') \<Rightarrow>
          (case run fuel ys s' of Inl e \<Rightarrow> Inl e | Inr (rs, s'') \<Rightarrow> Inr (r @ rs, s'')))"
  by (induction xs arbitrary: s) (auto split: sum.splits)











section \<open>Concrete runs\<close>

lemma run_queue_Inr:
  "run_queue fuel ops s = Inr (outs, q) \<Longrightarrow> \<exists>s'. run fuel ops s = Inr (outs, s') \<and> qu s' = q"
  by (auto simp: run_queue_def split: sum.splits)

lemma run_queue_Inl:
  "run_queue fuel ops s = Inl e \<Longrightarrow> run fuel ops s = Inl e"
  by (auto simp: run_queue_def split: sum.splits)

lemma dequeue_loop_stuck:
  "size_imed (qu s) = 0 \<Longrightarrow> size_q (qu s) = 0 \<Longrightarrow> done_list (qu s) = [] \<Longrightarrow>
   dequeue_loop fuel s = Inl Out_of_fuel"
  by (induction fuel)
     (simp_all add: priorityq_advance_immediates_def priorityq_advance_priority_queue_def)

lemma stuck_run:
  "run_queue 2 [Enqueue 1, Enqueue 2, Enqueue 3, Dequeue, Remove 2] init_state
   = Inr ([Some 1],
       \<lparr>pc = 0, counter_imed = 1, size_pq = 1, size_done = 1, size_imed = 0, size_q = 0,
        done_list = [], immediate = [3], processing = [],
        bins = [[], [], [], [], [], [], [], []]\<rparr>)"
  by code_simp

text \<open>
  C8 fails on the code. \<^verbatim>\<open>priorityq_advance_immediates\<close> moves items from the immediate
  ring to the done ring without setting their location to \<open>LOC_DONE\<close> (the drain of the
  processing ring does set \<open>LOC_IMED\<close> when it moves an item). Three priority-0 items are
  enqueued; the first dequeue returns item 1 and leaves item 2 in the done ring, still
  tagged \<open>LOC_IMED\<close>; removing item 2 therefore decrements \<open>size_imed\<close> instead of
  \<open>size_done\<close>. The queue now holds item 3 in the immediate ring with \<open>size_imed = 0\<close>
  and \<open>size = 1\<close>: the loop of \<^verbatim>\<open>priorityq_dequeue\<close> finds nothing to do and never
  ends, whatever number of iterations it is given.
\<close>

theorem dequeue_never_returns:
  "\<exists>s. run 2 [Enqueue 1, Enqueue 2, Enqueue 3, Dequeue, Remove 2] init_state = Inr ([Some 1], s)
       \<and> size_pq (qu s) = 1 \<and> immediate (qu s) = [3] \<and> done_list (qu s) = []
       \<and> (\<forall>fuel. priorityq_dequeue fuel s = Inl Out_of_fuel)"
proof -
  from run_queue_Inr [OF stuck_run] obtain s where
    r: "run 2 [Enqueue 1, Enqueue 2, Enqueue 3, Dequeue, Remove 2] init_state = Inr ([Some 1], s)"
    and q: "qu s = \<lparr>pc = 0, counter_imed = 1, size_pq = 1, size_done = 1, size_imed = 0, size_q = 0,
        done_list = [], immediate = [3], processing = [],
        bins = [[], [], [], [], [], [], [], []]\<rparr>"
    by blast
  have "dequeue_loop fuel s = Inl Out_of_fuel" for fuel
    using q by (intro dequeue_loop_stuck) simp_all
  then have "priorityq_dequeue fuel s = Inl Out_of_fuel" for fuel
    using q by (simp add: priorityq_dequeue_def)
  with r q show ?thesis by auto
qed

lemma s2_run:
  "run_queue 6 [Set 1 12, Enqueue 1, Set 2 3, Enqueue 2, Dequeue, Dequeue, Dequeue] init_state
   = Inr ([Some 2, Some 1, None],
       \<lparr>pc = 12, counter_imed = 0, size_pq = 0, size_done = 0, size_imed = 0, size_q = 0,
        done_list = [], immediate = [], processing = [],
        bins = [[], [], [], [], [], [], [], []]\<rparr>)"
  by code_simp

text \<open>
  Against C1 as stated: after a priority-12 item (at address 1) and then a priority-3 item
  (at address 2) have been enqueued into a fresh queue, the first dequeue returns the
  priority-3 item and the second the priority-12 item; the smaller number leaves first.
\<close>

theorem smaller_priority_first:
  "\<exists>s. run 6 [Set 1 12, Enqueue 1, Set 2 3, Enqueue 2, Dequeue, Dequeue, Dequeue] init_state
         = Inr ([Some 2, Some 1, None], s)"
  using run_queue_Inr [OF s2_run] by blast

section \<open>The counter advance\<close>

declare advance_search.simps [simp del]
declare advance_splice.simps [simp del]

lemma not_and_exp_neq_0: "i < 8 \<Longrightarrow> (NOT (c :: 8 word) AND 2 ^ i \<noteq> 0) = (\<not> bit c i)"
  by (simp add: and_exp_eq_0_iff_not_bit bit_not_iff)

lemma advance_search_find:
  "index \<le> 7 \<Longrightarrow> length (bins q) = 8 \<Longrightarrow>
   advance_search q index (2 ^ index)
     = (let i = (case List.find (\<lambda>i. bins q ! i \<noteq> [] \<and> \<not> bit (pc q) i) [index..<7] of
                   None \<Rightarrow> 7 | Some i \<Rightarrow> i)
        in (i, 2 ^ i))"
proof (induction "7 - index" arbitrary: index)
  case 0
  then have "index = 7" by simp
  then show ?case
    by (subst advance_search.simps) (simp add: PQ_BINS_def)
next
  case (Suc n)
  then have lt: "index < 7" by simp
  have up: "[index..<7] = index # [index + 1..<7]"
    using lt by (simp add: upt_rec)
  have ih: "advance_search q (Suc index) (2 ^ index * 2)
     = (let i = (case List.find (\<lambda>i. bins q ! i \<noteq> [] \<and> \<not> bit (pc q) i) [Suc index..<7] of
                   None \<Rightarrow> 7 | Some i \<Rightarrow> i)
        in (i, 2 ^ i))"
    using Suc.hyps(1) [of "Suc index"] Suc.hyps(2) Suc.prems lt by (simp add: mult.commute)
  show ?case
    using lt Suc.prems
    by (subst advance_search.simps)
       (simp add: up PQ_BINS_def list_has_bin_def not_and_exp_neq_0 ih)
qed


lemma length_bins_splice_seq [simp]: "length (bins (splice_seq js q)) = length (bins q)"
  by (induction js arbitrary: q) auto

lemma advance_splice_seq:
  "length (bins q) = 8 \<Longrightarrow> (\<forall>k. bit bits k \<longrightarrow> index + k < 8) \<Longrightarrow>
   advance_splice bits index q
     = Inr (splice_seq (filter (\<lambda>j. bit bits (j - index)) [index..<8]) q)"
proof (induction bits index q rule: advance_splice.induct)
  case (1 bits index q)
  show ?case
  proof (cases "bits = 0")
    case True
    then show ?thesis
      by (subst advance_splice.simps) simp
  next
    case False
    then obtain k where k: "bit bits k"
      by (auto simp: bit_eq_iff)
    with "1.prems"(2) have lt: "index < 8"
      by fastforce
    have up: "[index..<8] = index # [Suc index..<8]"
      using lt by (simp add: upt_rec)
    have sh: "filter (\<lambda>j. bit bits (j - index)) [Suc index..<8]
              = filter (\<lambda>j. bit (drop_bit 1 bits) (j - (index + 1))) [Suc index..<8]"
      by (rule filter_cong) (auto simp: bit_drop_bit_eq Suc_diff_Suc less_eq_Suc_le)
    have pre: "\<forall>k. bit (drop_bit 1 bits) k \<longrightarrow> index + 1 + k < 8"
      using "1.prems"(2) by (auto simp: bit_drop_bit_eq)
    have b0: "(1 AND bits \<noteq> 0) = bit bits 0"
      by (simp add: bit_0 one_and_eq of_bool_def odd_iff_mod_2_eq_one)
    show ?thesis
    proof (cases "bit bits 0")
      case True
      let ?q1 = "q\<lparr>processing := processing q @ bins q ! index, bins := (bins q)[index := []]\<rparr>"
      have a: "list_append_bin index q = Inr ?q1"
        using lt "1.prems"(1) by (simp add: list_append_bin_def)
      have "advance_splice (drop_bit 1 bits) (index + 1) ?q1
            = Inr (splice_seq (filter (\<lambda>j. bit (drop_bit 1 bits) (j - (index + 1))) [index + 1..<8]) ?q1)"
      proof -
        have c1: "1 AND bits \<noteq> 0" using True b0 by simp
        have l1: "length (bins ?q1) = 8" using "1.prems"(1) by simp
        show ?thesis
          using "1.IH"(1) [OF False c1 a l1 pre] by simp
      qed
      then show ?thesis
        using False True b0 a
        by (subst advance_splice.simps) (simp add: up sh)
    next
      case F: False
      have "advance_splice (drop_bit 1 bits) (index + 1) q
            = Inr (splice_seq (filter (\<lambda>j. bit (drop_bit 1 bits) (j - (index + 1))) [index + 1..<8]) q)"
      proof -
        have c1: "\<not> 1 AND bits \<noteq> 0" using F b0 by simp
        show ?thesis
          using "1.IH"(2) [OF False c1 "1.prems"(1) pre] by simp
      qed
      then show ?thesis
        using False F b0
        by (subst advance_splice.simps) (simp add: up sh)
    qed
  qed
qed

lemma splice_seq_bins:
  "distinct js \<Longrightarrow> \<forall>j\<in>set js. j < 8 \<Longrightarrow> length (bins q) = 8 \<Longrightarrow>
   splice_seq js q = splice_bins js q"
proof (induction js arbitrary: q)
  case Nil
  have "map ((!) (bins q)) [0..<8] = bins q"
    using Nil.prems(3) map_nth [of "bins q"] by simp
  then show ?case
    by (simp add: splice_bins_def)
next
  case (Cons a js)
  let ?q1 = "q\<lparr>processing := processing q @ bins q ! a, bins := (bins q)[a := []]\<rparr>"
  have ih: "splice_seq js ?q1 = splice_bins js ?q1"
    using Cons.IH [of ?q1] Cons.prems by simp
  have n: "(bins q)[a := []] ! j = bins q ! j" if "j \<in> set js" for j
    using that Cons.prems(1) by (intro nth_list_update_neq) auto
  have p: "concat (map ((!) ((bins q)[a := []])) js) = concat (map ((!) (bins q)) js)"
    using n by (intro arg_cong [where f = concat] map_cong) auto
  have b: "(if j \<in> set js then [] else (bins q)[a := []] ! j)
           = (if j = a \<or> j \<in> set js then [] else bins q ! j)" if "j < 8" for j
    using that Cons.prems by (auto simp: nth_list_update)
  show ?case
    using ih by (simp add: splice_bins_def p b cong: if_cong)
qed


lemma lowest_ready_bin_le: "lowest_ready_bin q \<le> 7"
proof (cases "List.find (\<lambda>i. bins q ! i \<noteq> [] \<and> \<not> bit (pc q) i) [0..<7]")
  case None
  then show ?thesis
    by (simp add: lowest_ready_bin_def)
next
  case (Some i)
  then have "i \<in> set [0..<7]"
    by (auto simp: find_Some_iff)
  with Some show ?thesis
    by (simp add: lowest_ready_bin_def)
qed

lemma bit_PQ_MASK: "bit PQ_MASK j = (j < 7)"
proof -
  have "PQ_MASK = mask 7"
    by (simp add: PQ_MASK_def mask_eq_exp_minus_1)
  moreover have "bit (mask 7 :: 8 word) j = (j < 7)"
    by (auto simp add: bit_mask_iff)
  ultimately show ?thesis
    by simp
qed

lemma bit_not_PQ_MASK: "bit (NOT PQ_MASK) j = (j = 7)"
  by (auto simp: bit_not_iff bit_PQ_MASK)

lemma bit_advance_bits:
  "bit ((NOT PQ_MASK AND (c XOR c')) OR (PQ_MASK AND (NOT c AND c'))) j
   = ((j = 7 \<and> bit c 7 \<noteq> bit c' 7) \<or> (j < 7 \<and> \<not> bit c j \<and> bit c' j))"
proof (cases "j = 7")
  case True
  then show ?thesis
    by (simp add: bit_or_iff bit_and_iff bit_xor_iff bit_not_iff bit_PQ_MASK bit_not_PQ_MASK)
next
  case False
  then show ?thesis
    by (auto simp: bit_or_iff bit_and_iff bit_xor_iff bit_not_iff bit_PQ_MASK bit_not_PQ_MASK)
qed

lemma fired_bins_eq:
  assumes "i \<le> 7"
  shows "fired_bins c c' i
   = i # filter (bit ((NOT PQ_MASK AND (c XOR c')) OR (PQ_MASK AND (NOT c AND c')))) [Suc i..<8]"
proof -
  have "[0..<8] = [0..<i] @ [i..<8]"
    using assms upt_add_eq_append [of 0 i "8 - i"] by simp
  moreover have "[i..<8] = i # [Suc i..<8]"
    using assms by (simp add: upt_conv_Cons)
  ultimately have split: "[0..<8] = [0..<i] @ i # [Suc i..<8]"
    by simp
  show ?thesis
    unfolding fired_bins_def split
    by (auto simp: bit_advance_bits intro!: filter_cong)
qed


lemma advance_counter_spec:
  assumes len: "length (bins q) = 8"
  shows "priorityq_advance_priority_counter q
   = (let i = lowest_ready_bin q; c' = advanced_pc (pc q) i
      in Inr ((splice_bins (fired_bins (pc q) c' i) q)\<lparr>pc := c'\<rparr>))"
proof -
  define i where "i = lowest_ready_bin q"
  define c' where "c' = advanced_pc (pc q) i"
  define B where "B = ((NOT PQ_MASK AND (pc q XOR c')) OR (PQ_MASK AND (NOT (pc q) AND c')))"
  let ?q1 = "q\<lparr>processing := processing q @ bins q ! i, bins := (bins q)[i := []]\<rparr>"
  let ?js = "filter (bit B) [Suc i..<8]"
  have i7: "i \<le> 7"
    unfolding i_def by (rule lowest_ready_bin_le)
  have search: "advance_search q 0 1 = (i, 2 ^ i)"
    using advance_search_find [of 0 q] len by (simp add: i_def lowest_ready_bin_def Let_def)
  have app: "list_append_bin i q = Inr ?q1"
    using i7 len by (simp add: list_append_bin_def)
  have pre: "\<forall>k. bit (drop_bit (Suc i) B) k \<longrightarrow> Suc i + k < 8"
    by (auto simp: bit_drop_bit_eq dest: bit_imp_le_length)
  have flt: "filter (\<lambda>j. bit (drop_bit (Suc i) B) (j - Suc i)) [Suc i..<8] = ?js"
    by (rule filter_cong) (auto simp: bit_drop_bit_eq)
  have spl: "advance_splice (drop_bit (Suc i) B) (Suc i) ?q1 = Inr (splice_seq ?js ?q1)"
    using advance_splice_seq [of ?q1 "drop_bit (Suc i) B" "Suc i"] len pre flt by simp
  have seq: "splice_seq ?js ?q1 = splice_seq (i # ?js) q"
    by simp
  have bins: "splice_seq (i # ?js) q = splice_bins (i # ?js) q"
    using i7 len by (intro splice_seq_bins) auto
  have fired: "fired_bins (pc q) c' i = i # ?js"
    using fired_bins_eq [OF i7] by (simp add: B_def)
  have "priorityq_advance_priority_counter q = Inr ((splice_bins (i # ?js) q)\<lparr>pc := c'\<rparr>)"
    using search app spl
    unfolding priorityq_advance_priority_counter_def seq bins
    by (simp add: Let_def c'_def advanced_pc_def B_def)
  then have "priorityq_advance_priority_counter q
      = Inr ((splice_bins (fired_bins (pc q) c' i) q)\<lparr>pc := c'\<rparr>)"
    by (simp only: fired)
  then show ?thesis
    by (simp add: Let_def i_def c'_def)
qed

text \<open>
  C7: whenever a counter advance runs (\<open>size_q\<close> is not zero and the processing ring is
  empty), with \<open>i\<close> the lowest index below 7 whose bin is not empty and whose bit of
  \<open>pc\<close> is 0 (7 if there is none), the counter becomes \<open>(pc OR (2 ^ i - 1)) + 1\<close> modulo
  256, and the bins spliced onto the processing ring, in increasing order, are bin \<open>i\<close>,
  every bin \<open>j > i\<close> below 7 whose bit goes from 0 to 1, and bin 7 when \<open>i < 7\<close> and the top
  bit changes in either direction; those bins are left empty, everything else is unchanged.
\<close>

theorem counter_advance_characterised:
  assumes "length (bins (qu s)) = 8" "size_q (qu s) \<noteq> 0" "processing (qu s) = []"
  shows "priorityq_advance_priority_queue s
   = (let i = lowest_ready_bin (qu s); c' = advanced_pc (pc (qu s)) i
      in Inr (s\<lparr>qu := (splice_bins (fired_bins (pc (qu s)) c' i) (qu s))\<lparr>pc := c'\<rparr>\<rparr>))"
  using assms advance_counter_spec [of "qu s"]
  by (simp add: priorityq_advance_priority_queue_def Let_def)


theorem counter_advance_characterised_witness:
  "length (bins (qu (init_state\<lparr>qu := priorityq_init\<lparr>pc := 5, size_q := 2,
       bins := [[], [10], [], [11], [], [], [], []]\<rparr>\<rparr>))) = 8
   \<and> size_q (qu (init_state\<lparr>qu := priorityq_init\<lparr>pc := 5, size_q := 2,
       bins := [[], [10], [], [11], [], [], [], []]\<rparr>\<rparr>)) \<noteq> 0
   \<and> processing (qu (init_state\<lparr>qu := priorityq_init\<lparr>pc := 5, size_q := 2,
       bins := [[], [10], [], [11], [], [], [], []]\<rparr>\<rparr>)) = []
   \<and> priorityq_advance_priority_queue
         (init_state\<lparr>qu := priorityq_init\<lparr>pc := 5, size_q := 2,
            bins := [[], [10], [], [11], [], [], [], []]\<rparr>\<rparr>)
       = Inr (init_state\<lparr>qu := priorityq_init\<lparr>pc := 6, size_q := 2, processing := [10],
            bins := [[], [], [], [11], [], [], [], []]\<rparr>\<rparr>)"
  using counter_advance_characterised
    [of "init_state\<lparr>qu := priorityq_init\<lparr>pc := 5, size_q := 2,
       bins := [[], [10], [], [11], [], [], [], []]\<rparr>\<rparr>"]
  by (simp add: priorityq_init_def lowest_ready_bin_def advanced_pc_def fired_bins_def
      splice_bins_def upt_rec bit_numeral_simps)

section \<open>Every completed operation keeps the state well-formed\<close>

lemma wf_stateI:
  assumes "length (bins (qu s)) = 8" "distinct (all_nodes (qu s))"
    "\<And>a. linked (mem s a) = (a \<in> set (all_nodes (qu s)))"
    "\<And>a. (info_loc (mem s a) = LOC_Q) = (a \<in> set (q_nodes (qu s)))"
    "\<And>a. (info_loc (mem s a) = LOC_NONE) = (a \<notin> set (all_nodes (qu s)))"
    "size_q (qu s) = of_nat (length (q_nodes (qu s)))"
    "size_pq (qu s) = size_done (qu s) + size_imed (qu s) + size_q (qu s)"
  shows "wf_state s"
  using assms unfolding wf_state_def by blast

lemma wf_bins: "wf_state s \<Longrightarrow> length (bins (qu s)) = 8"
  and wf_distinct: "wf_state s \<Longrightarrow> distinct (all_nodes (qu s))"
  and wf_linked: "wf_state s \<Longrightarrow> linked (mem s a) = (a \<in> set (all_nodes (qu s)))"
  and wf_loc_q: "wf_state s \<Longrightarrow> (info_loc (mem s a) = LOC_Q) = (a \<in> set (q_nodes (qu s)))"
  and wf_loc_none: "wf_state s \<Longrightarrow> (info_loc (mem s a) = LOC_NONE) = (a \<notin> set (all_nodes (qu s)))"
  and wf_size_q: "wf_state s \<Longrightarrow> size_q (qu s) = of_nat (length (q_nodes (qu s)))"
  and wf_size: "wf_state s \<Longrightarrow> size_pq (qu s) = size_done (qu s) + size_imed (qu s) + size_q (qu s)"
  unfolding wf_state_def by blast+

lemma wf_distinct_q: "wf_state s \<Longrightarrow> distinct (q_nodes (qu s))"
  using wf_distinct [of s] by (simp add: all_nodes_def)

lemma q_nodes_subset: "a \<in> set (q_nodes q) \<Longrightarrow> a \<in> set (all_nodes q)"
  by (simp add: all_nodes_def)

lemma mset_concat_update:
  "i < length xss \<Longrightarrow> mset (concat (xss[i := ys])) + mset (xss ! i) = mset (concat xss) + mset ys"
  by (induction xss arbitrary: i) (auto split: nat.splits)

lemma remove1_append_distinct:
  "distinct (xs @ ys) \<Longrightarrow> remove1 n xs @ remove1 n ys = remove1 n (xs @ ys)"
  by (auto simp: remove1_append intro!: remove1_idem)

lemma concat_remove1:
  "distinct (concat xss) \<Longrightarrow> concat (map (remove1 n) xss) = remove1 n (concat xss)"
proof (induction xss)
  case Nil
  show ?case by simp
next
  case (Cons xs xss)
  then have "distinct (xs @ concat xss)" by simp
  from remove1_append_distinct [OF this, of n] Cons show ?case
    by simp
qed

lemma q_nodes_unlink:
  assumes "distinct (all_nodes (qu s))"
  shows "q_nodes (qu (node_unlink_only n s)) = remove1 n (q_nodes (qu s))"
proof -
  from assms have d: "distinct (processing (qu s) @ concat (bins (qu s)))"
    and dc: "distinct (concat (bins (qu s)))"
    by (simp_all add: all_nodes_def q_nodes_def)
  show ?thesis
    using remove1_append_distinct [OF d, of n] concat_remove1 [OF dc, of n]
    by (simp add: q_nodes_def node_unlink_only_def)
qed

lemma all_nodes_unlink:
  assumes "distinct (all_nodes (qu s))"
  shows "all_nodes (qu (node_unlink_only n s)) = remove1 n (all_nodes (qu s))"
proof -
  from assms have d1: "distinct (done_list (qu s) @ immediate (qu s))"
    and d2: "distinct ((done_list (qu s) @ immediate (qu s)) @ q_nodes (qu s))"
    by (auto simp add: all_nodes_def)
  have "all_nodes (qu (node_unlink_only n s))
        = (remove1 n (done_list (qu s)) @ remove1 n (immediate (qu s))) @ remove1 n (q_nodes (qu s))"
    using q_nodes_unlink [OF assms, of n]
    by (simp add: all_nodes_def) (simp add: node_unlink_only_def)
  also have "\<dots> = remove1 n (all_nodes (qu s))"
    using remove1_append_distinct [OF d1, of n] remove1_append_distinct [OF d2, of n]
    by (simp add: all_nodes_def)
  finally show ?thesis .
qed

lemma mem_unlink [simp]: "mem (node_unlink_only n s) = mem s"
  by (simp add: node_unlink_only_def)

lemma fields_unlink [simp]:
  "pc (qu (node_unlink_only n s)) = pc (qu s)"
  "size_pq (qu (node_unlink_only n s)) = size_pq (qu s)"
  "size_done (qu (node_unlink_only n s)) = size_done (qu s)"
  "size_imed (qu (node_unlink_only n s)) = size_imed (qu s)"
  "size_q (qu (node_unlink_only n s)) = size_q (qu s)"
  "counter_imed (qu (node_unlink_only n s)) = counter_imed (qu s)"
  "length (bins (qu (node_unlink_only n s))) = length (bins (qu s))"
  by (simp_all add: node_unlink_only_def)

lemma length_remove1_word:
  "n \<in> set xs \<Longrightarrow> (of_nat (length (remove1 n xs)) :: 32 word) = of_nat (length xs) - 1"
proof -
  assume "n \<in> set xs"
  then obtain k where "length xs = Suc k"
    by (cases xs) auto
  with \<open>n \<in> set xs\<close> show ?thesis
    by (simp add: length_remove1)
qed



text \<open>Unlinking a linked item and adjusting the counter that its tag names.\<close>

lemma wf_unlinked:
  assumes wf: "wf_state s" and li: "linked (mem s a)"
    and q': "qu s' = (qu (node_unlink_only a s))\<lparr>size_pq := size_pq (qu s) - 1, size_done := sd,
                 size_imed := si, size_q := sq\<rparr>"
    and m': "mem s' = (mem s)(a := (mem s a)\<lparr>linked := False, info_loc := LOC_NONE\<rparr>)"
    and sq: "sq = (if info_loc (mem s a) = LOC_Q then size_q (qu s) - 1 else size_q (qu s))"
    and sd: "sd + si = (if info_loc (mem s a) = LOC_Q then size_done (qu s) + size_imed (qu s)
                        else size_done (qu s) + size_imed (qu s) - 1)"
  shows "wf_state s'"
proof (rule wf_stateI)
  note d = wf_distinct [OF wf]
  have ain: "a \<in> set (all_nodes (qu s))"
    using wf_linked [OF wf, of a] li by simp
  have an: "all_nodes (qu s') = remove1 a (all_nodes (qu s))"
    using all_nodes_unlink [OF d, of a] by (simp add: q' all_nodes_def q_nodes_def)
  have qn: "q_nodes (qu s') = remove1 a (q_nodes (qu s))"
    using q_nodes_unlink [OF d, of a] by (simp add: q' q_nodes_def)
  have san: "set (all_nodes (qu s')) = set (all_nodes (qu s)) - {a}"
    unfolding an using d by simp
  have sqn: "set (q_nodes (qu s')) = set (q_nodes (qu s)) - {a}"
    unfolding qn using wf_distinct_q [OF wf] by simp
  have szs: "size_q (qu s') = sq" "size_done (qu s') = sd" "size_imed (qu s') = si"
    "size_pq (qu s') = size_pq (qu s) - 1"
    by (simp_all add: q')
  show "length (bins (qu s')) = 8"
    using wf_bins [OF wf] by (simp add: q')
  show "distinct (all_nodes (qu s'))"
    unfolding an using d by simp
  show "linked (mem s' b) = (b \<in> set (all_nodes (qu s')))" for b
    unfolding san using wf_linked [OF wf, of b] by (simp add: m')
  show "(info_loc (mem s' b) = LOC_Q) = (b \<in> set (q_nodes (qu s')))" for b
    unfolding sqn using wf_loc_q [OF wf, of b] by (simp add: m')
  show "(info_loc (mem s' b) = LOC_NONE) = (b \<notin> set (all_nodes (qu s')))" for b
    unfolding san using wf_loc_none [OF wf, of b] by (simp add: m')
  show "size_q (qu s') = of_nat (length (q_nodes (qu s')))"
  proof (cases "info_loc (mem s a) = LOC_Q")
    case True
    then have "a \<in> set (q_nodes (qu s))"
      using wf_loc_q [OF wf, of a] by simp
    then show ?thesis
      unfolding qn szs using True wf_size_q [OF wf] by (simp add: sq length_remove1_word)
  next
    case False
    then have "a \<notin> set (q_nodes (qu s))"
      using wf_loc_q [OF wf, of a] by simp
    then show ?thesis
      unfolding qn szs using False wf_size_q [OF wf] by (simp add: sq remove1_idem)
  qed
  show "size_pq (qu s') = size_done (qu s') + size_imed (qu s') + size_q (qu s')"
    unfolding szs using wf_size [OF wf] sd by (simp add: sq)
qed



lemma distinct_iff_count_le_1: "distinct xs = (\<forall>a. count (mset xs) a \<le> 1)"
proof
  assume "distinct xs"
  then show "\<forall>a. count (mset xs) a \<le> 1"
    by (simp add: distinct_count_atmost_1)
next
  assume le: "\<forall>a. count (mset xs) a \<le> 1"
  have "count (mset xs) a = (if a \<in> set xs then 1 else 0)" for a
  proof (cases "a \<in> set xs")
    case True
    then have "count (mset xs) a \<noteq> 0" by simp
    with le [rule_format, of a] True show ?thesis by arith
  next
    case False
    then show ?thesis by simp
  qed
  then show "distinct xs"
    by (simp add: distinct_count_atmost_1)
qed

lemma wf_stateI_mset:
  assumes "length (bins (qu s)) = 8"
    and "mset (all_nodes (qu s)) = A" and "mset (q_nodes (qu s)) = Q"
    and "\<And>a. count A a \<le> 1"
    and "\<And>a. linked (mem s a) = (a \<in># A)"
    and "\<And>a. (info_loc (mem s a) = LOC_Q) = (a \<in># Q)"
    and "\<And>a. (info_loc (mem s a) = LOC_NONE) = (a \<notin># A)"
    and "size_q (qu s) = of_nat (size Q)"
    and "size_pq (qu s) = size_done (qu s) + size_imed (qu s) + size_q (qu s)"
  shows "wf_state s"
proof (rule wf_stateI)
  show "distinct (all_nodes (qu s))"
    using assms(2,4) by (simp add: distinct_iff_count_le_1)
  show "linked (mem s a) = (a \<in> set (all_nodes (qu s)))" for a
    using assms(5) [of a] assms(2) by (metis set_mset_mset)
  show "(info_loc (mem s a) = LOC_Q) = (a \<in> set (q_nodes (qu s)))" for a
    using assms(6) [of a] assms(3) by (metis set_mset_mset)
  show "(info_loc (mem s a) = LOC_NONE) = (a \<notin> set (all_nodes (qu s)))" for a
    using assms(7) [of a] assms(2) by (metis set_mset_mset)
  show "size_q (qu s) = of_nat (length (q_nodes (qu s)))"
    using assms(8) assms(3) by (metis size_mset)
qed (use assms in simp_all)

lemma wf_count: "wf_state s \<Longrightarrow> count (mset (all_nodes (qu s))) a \<le> 1"
  using wf_distinct [of s] by (simp add: distinct_iff_count_le_1)

lemma wf_linked_m: "wf_state s \<Longrightarrow> linked (mem s a) = (a \<in># mset (all_nodes (qu s)))"
  using wf_linked [of s a] by simp

lemma wf_loc_q_m: "wf_state s \<Longrightarrow> (info_loc (mem s a) = LOC_Q) = (a \<in># mset (q_nodes (qu s)))"
  using wf_loc_q [of s a] by simp

lemma wf_loc_none_m:
  "wf_state s \<Longrightarrow> (info_loc (mem s a) = LOC_NONE) = (a \<notin># mset (all_nodes (qu s)))"
  using wf_loc_none [of s a] by simp

lemma wf_size_q_m: "wf_state s \<Longrightarrow> size_q (qu s) = of_nat (size (mset (q_nodes (qu s))))"
  using wf_size_q [of s] by simp




lemma nq_only_Inr:
  assumes "priorityq_nq_only s p = Inr s'"
  obtains i where "i < length (bins (qu s))"
    and "s' = set_linked p (s\<lparr>qu := (qu s)\<lparr>bins := (bins (qu s))[i := bins (qu s) ! i @ [p]]\<rparr>\<rparr>)"
  using assms
  by (auto simp: priorityq_nq_only_def Let_def list_nq_bin_def split: sum.splits if_splits)











text \<open>Steps that only move nodes around inside the front rings or inside the bucket bank.\<close>

lemma wf_perm:
  assumes wf: "wf_state s"
    and "mset (done_list (qu s') @ immediate (qu s')) = mset (done_list (qu s) @ immediate (qu s))"
    and Q: "mset (q_nodes (qu s')) = mset (q_nodes (qu s))"
    and "length (bins (qu s')) = 8" and m: "mem s' = mem s"
    and "size_q (qu s') = size_q (qu s)"
    and "size_pq (qu s') = size_done (qu s') + size_imed (qu s') + size_q (qu s')"
  shows "wf_state s'"
proof -
  have A: "mset (all_nodes (qu s')) = mset (all_nodes (qu s))"
    using assms(2) Q by (simp add: all_nodes_def)
  show ?thesis
    using assms(4,6,7) wf_count [OF wf] wf_linked_m [OF wf] wf_loc_q_m [OF wf]
      wf_loc_none_m [OF wf] wf_size_q_m [OF wf]
    by (intro wf_stateI_mset [OF _ A Q]) (simp_all add: m)
qed

lemma immediate_to_done_effect:
  assumes "immediate_to_done q = Inr q'"
  shows "mset (done_list q' @ immediate q') = mset (done_list q @ immediate q)
    \<and> processing q' = processing q \<and> bins q' = bins q \<and> size_q q' = size_q q
    \<and> size_pq q' = size_pq q \<and> pc q' = pc q
    \<and> size_done q' + size_imed q' = size_done q + size_imed q"
  using assms by (auto simp: immediate_to_done_def split: list.splits)

lemma advance_immediates_effect:
  assumes "priorityq_advance_immediates q = Inr q'"
  shows "mset (done_list q' @ immediate q') = mset (done_list q @ immediate q)
    \<and> processing q' = processing q \<and> bins q' = bins q \<and> size_q q' = size_q q
    \<and> size_pq q' = size_pq q \<and> pc q' = pc q
    \<and> size_done q' + size_imed q' = size_done q + size_imed q"
proof -
  consider (none) "q' = q"
    | (one) q1 c where "immediate_to_done q = Inr q1" "q' = q1\<lparr>counter_imed := c\<rparr>"
    | (two) q1 q2 c where "immediate_to_done q = Inr q1" "immediate_to_done q1 = Inr q2"
        "q' = q2\<lparr>counter_imed := c\<rparr>"
    | (reset) c where "q' = q\<lparr>counter_imed := c\<rparr>"
    using assms
    by (auto simp: priorityq_advance_immediates_def split: if_splits sum.splits)
  then show ?thesis
  proof cases
    case none
    then show ?thesis by simp
  next
    case one
    with immediate_to_done_effect [OF one(1)] show ?thesis by simp
  next
    case two
    with immediate_to_done_effect [OF two(1)] immediate_to_done_effect [OF two(2)]
    show ?thesis by simp
  next
    case reset
    then show ?thesis by simp
  qed
qed

lemma wf_advance_immediates:
  assumes "wf_state s" "priorityq_advance_immediates (qu s) = Inr q'"
  shows "wf_state (s\<lparr>qu := q'\<rparr>)"
  using assms(1) advance_immediates_effect [OF assms(2)] wf_bins [OF assms(1)] wf_size [OF assms(1)]
  by (intro wf_perm [OF assms(1)]) (simp_all add: q_nodes_def)

lemma mset_q_nodes_splice_seq:
  "\<forall>j\<in>set js. j < length (bins q) \<Longrightarrow> mset (q_nodes (splice_seq js q)) = mset (q_nodes q)"
proof (induction js arbitrary: q)
  case Nil
  show ?case by simp
next
  case (Cons j js)
  let ?q1 = "q\<lparr>processing := processing q @ bins q ! j, bins := (bins q)[j := []]\<rparr>"
  have "mset (q_nodes ?q1) = mset (q_nodes q)"
    using mset_concat_update [of j "bins q" "[]"] Cons.prems
    by (simp add: q_nodes_def add.commute)
  moreover have "mset (q_nodes (splice_seq js ?q1)) = mset (q_nodes ?q1)"
    using Cons.prems by (intro Cons.IH) simp
  ultimately show ?case by simp
qed

lemma fields_splice_seq [simp]:
  "done_list (splice_seq js q) = done_list q"
  "immediate (splice_seq js q) = immediate q"
  "size_q (splice_seq js q) = size_q q"
  "size_pq (splice_seq js q) = size_pq q"
  "size_done (splice_seq js q) = size_done q"
  "size_imed (splice_seq js q) = size_imed q"
  "counter_imed (splice_seq js q) = counter_imed q"
  "pc (splice_seq js q) = pc q"
  by (induction js arbitrary: q) simp_all

lemma fired_bins_props: "distinct (fired_bins c c' i) \<and> (\<forall>j\<in>set (fired_bins c c' i). j < 8)"
  by (simp add: fired_bins_def)

lemma advance_counter_seq:
  assumes "length (bins q) = 8"
  shows "priorityq_advance_priority_counter q
   = Inr ((splice_seq (fired_bins (pc q) (advanced_pc (pc q) (lowest_ready_bin q)) (lowest_ready_bin q)) q)
            \<lparr>pc := advanced_pc (pc q) (lowest_ready_bin q)\<rparr>)"
  using advance_counter_spec [OF assms] fired_bins_props splice_seq_bins [OF _ _ assms]
  by (simp add: Let_def)

lemma wf_advance_counter:
  assumes wf: "wf_state s" and a: "priorityq_advance_priority_counter (qu s) = Inr q'"
  shows "wf_state (s\<lparr>qu := q'\<rparr>)"
proof -
  let ?js = "fired_bins (pc (qu s)) (advanced_pc (pc (qu s)) (lowest_ready_bin (qu s)))
              (lowest_ready_bin (qu s))"
  have q': "q' = (splice_seq ?js (qu s))\<lparr>pc := advanced_pc (pc (qu s)) (lowest_ready_bin (qu s))\<rparr>"
    using advance_counter_seq [OF wf_bins [OF wf]] a by simp
  have "mset (q_nodes (splice_seq ?js (qu s))) = mset (q_nodes (qu s))"
    using fired_bins_props wf_bins [OF wf] by (intro mset_q_nodes_splice_seq) simp
  then have Q: "mset (q_nodes q') = mset (q_nodes (qu s))"
    by (simp add: q' q_nodes_def)
  show ?thesis
    using Q wf_bins [OF wf] wf_size [OF wf]
    by (intro wf_perm [OF wf]) (simp_all add: q')
qed


lemma relink_idem: "linked r \<Longrightarrow> r\<lparr>linked := True\<rparr> = r"
  by (cases r) simp

lemma wf_processing_step:
  assumes wf: "wf_state s" and st: "processing_step s = Inr s'"
  shows "wf_state s'"
proof -
  from st obtain p rest where pr: "processing (qu s) = p # rest"
    by (auto simp: processing_step_def split: list.splits)
  let ?s1 = "s\<lparr>qu := (qu s)\<lparr>processing := rest\<rparr>\<rparr>"
  have pin: "p \<in> set (q_nodes (qu s))"
    by (simp add: q_nodes_def pr)
  then have lp: "linked (mem s p)"
    using wf_linked [OF wf, of p] by (simp add: all_nodes_def)
  show ?thesis
  proof (cases "info_rel (mem s p) \<noteq> pc (qu s)")
    case True
    with st pr have "priorityq_nq_only ?s1 p = Inr s'"
      by (simp add: processing_step_def)
    then obtain i where i: "i < length (bins (qu s))"
      and s': "s' = set_linked p (?s1\<lparr>qu := (qu ?s1)\<lparr>bins := (bins (qu ?s1))[i := bins (qu ?s1) ! i @ [p]]\<rparr>\<rparr>)"
      by (rule nq_only_Inr) auto
    have m: "mem s' = mem s"
      using lp by (simp add: s' set_linked_def relink_idem)
    have Q: "mset (q_nodes (qu s')) = mset (q_nodes (qu s))"
      using mset_concat_update [OF i, of "bins (qu s) ! i @ [p]"]
      by (simp add: s' set_linked_def q_nodes_def pr)
    show ?thesis
      using Q m wf_bins [OF wf] wf_size [OF wf]
      by (intro wf_perm [OF wf]) (simp_all add: s' set_linked_def)
  next
    case False
    with st pr have s': "s' = list_nq_immediate p
        (?s1\<lparr>qu := (qu ?s1)\<lparr>size_q := size_q (qu ?s1) - 1, size_imed := size_imed (qu ?s1) + 1\<rparr>,
             mem := (mem ?s1)(p := (mem ?s1 p)\<lparr>info_loc := LOC_IMED\<rparr>)\<rparr>)"
      by (simp add: processing_step_def)
    have A: "mset (all_nodes (qu s')) = mset (all_nodes (qu s))"
      by (simp add: s' list_nq_immediate_def set_linked_def all_nodes_def q_nodes_def pr)
    have qs: "q_nodes (qu s) = p # q_nodes (qu s')"
      by (simp add: s' list_nq_immediate_def set_linked_def q_nodes_def pr)
    have np: "p \<notin> set (q_nodes (qu s'))"
      using wf_distinct_q [OF wf] by (simp add: qs)
    have ain: "p \<in> set (all_nodes (qu s))"
      using pin by (rule q_nodes_subset)
    have ml: "linked (mem s' b) = (b = p \<or> linked (mem s b))" for b
      by (simp add: s' list_nq_immediate_def set_linked_def)
    have mloc: "info_loc (mem s' b) = (if b = p then LOC_IMED else info_loc (mem s b))" for b
      by (simp add: s' list_nq_immediate_def set_linked_def)
    have sz: "size_q (qu s') = size_q (qu s) - 1" "size_imed (qu s') = size_imed (qu s) + 1"
      "size_done (qu s') = size_done (qu s)" "size_pq (qu s') = size_pq (qu s)"
      "length (bins (qu s')) = length (bins (qu s))"
      by (simp_all add: s' list_nq_immediate_def set_linked_def)
    show ?thesis
    proof (rule wf_stateI_mset [OF _ A refl])
      show "length (bins (qu s')) = 8"
        using wf_bins [OF wf] by (simp add: sz)
      show "count (mset (all_nodes (qu s))) b \<le> 1" for b
        by (rule wf_count [OF wf])
      show "linked (mem s' b) = (b \<in># mset (all_nodes (qu s)))" for b
        using wf_linked_m [OF wf, of b] ain by (auto simp add: ml)
      show "(info_loc (mem s' b) = LOC_Q) = (b \<in># mset (q_nodes (qu s')))" for b
        using wf_loc_q [OF wf, of b] np unfolding qs mloc by auto
      show "(info_loc (mem s' b) = LOC_NONE) = (b \<notin># mset (all_nodes (qu s)))" for b
        using wf_loc_none_m [OF wf, of b] ain by (auto simp add: mloc)
      show "size_q (qu s') = of_nat (size (mset (q_nodes (qu s'))))"
        using wf_size_q [OF wf] unfolding qs sz by simp
      show "size_pq (qu s') = size_done (qu s') + size_imed (qu s') + size_q (qu s')"
        using wf_size [OF wf] unfolding sz by simp
    qed
  qed
qed

lemma wf_processing_loop:
  "wf_state s \<Longrightarrow> processing_loop l s = Inr s' \<Longrightarrow> wf_state s'"
proof (induction l arbitrary: s)
  case 0
  then show ?case by simp
next
  case (Suc l)
  from Suc.prems(2) obtain s1 where st: "processing_step s = Inr s1"
    by (auto split: sum.splits)
  have wf1: "wf_state s1"
    using Suc.prems(1) st by (rule wf_processing_step)
  show ?case
  proof (cases "l \<noteq> 0 \<and> processing (qu s1) \<noteq> []")
    case True
    with Suc.prems(2) st have "processing_loop l s1 = Inr s'" by simp
    with wf1 show ?thesis by (rule Suc.IH)
  next
    case False
    with Suc.prems(2) st have "s' = s1" by auto
    with wf1 show ?thesis by simp
  qed
qed

lemma wf_advance_priority_queue:
  assumes "wf_state s" "priorityq_advance_priority_queue s = Inr s'"
  shows "wf_state s'"
proof (cases "size_q (qu s) \<noteq> 0")
  case False
  with assms show ?thesis
    by (simp add: priorityq_advance_priority_queue_def)
next
  case nz: True
  show ?thesis
  proof (cases "processing (qu s) \<noteq> []")
    case True
    with nz assms(2) obtain h where "processing_loop (h + 1) s = Inr s'"
      by (auto simp: priorityq_advance_priority_queue_def split: sum.splits)
    with assms(1) show ?thesis by (rule wf_processing_loop)
  next
    case False
    with nz assms(2) obtain q' where a: "priorityq_advance_priority_counter (qu s) = Inr q'"
      and s': "s' = s\<lparr>qu := q'\<rparr>"
      by (auto simp: priorityq_advance_priority_queue_def split: sum.splits)
    from wf_advance_counter [OF assms(1) a] s' show ?thesis by simp
  qed
qed


lemma dequeue_loop_result:
  "wf_state s \<Longrightarrow> dequeue_loop fuel s = Inr (n, s1) \<Longrightarrow>
   \<exists>s2 rest. wf_state s2 \<and> done_list (qu s2) = n # rest
      \<and> s1 = node_clear n (s2\<lparr>qu := (qu s2)\<lparr>done_list := rest\<rparr>\<rparr>)"
proof (induction fuel arbitrary: s)
  case 0
  then show ?case by simp
next
  case (Suc fuel)
  from Suc.prems(2) obtain q1 where i: "priorityq_advance_immediates (qu s) = Inr q1"
    by (auto split: sum.splits)
  from Suc.prems(2) i obtain s2 where a: "priorityq_advance_priority_queue (s\<lparr>qu := q1\<rparr>) = Inr s2"
    by (auto split: sum.splits)
  have wf2: "wf_state s2"
    using wf_advance_priority_queue [OF wf_advance_immediates [OF Suc.prems(1) i] a] .
  show ?case
  proof (cases "done_list (qu s2)")
    case Nil
    with Suc.prems(2) i a have "dequeue_loop fuel s2 = Inr (n, s1)" by simp
    with wf2 show ?thesis by (rule Suc.IH)
  next
    case (Cons m rest)
    with Suc.prems(2) i a have "m = n" "s1 = node_clear n (s2\<lparr>qu := (qu s2)\<lparr>done_list := rest\<rparr>\<rparr>)"
      by auto
    with wf2 Cons show ?thesis by blast
  qed
qed

lemma wf_dequeue:
  assumes wf: "wf_state s" and d: "priorityq_dequeue fuel s = Inr (r, s')"
  shows "wf_state s'"
proof (cases "size_pq (qu s) \<noteq> 0")
  case False
  with d wf show ?thesis by (simp add: priorityq_dequeue_def)
next
  case True
  with d obtain n s1 where l: "dequeue_loop fuel s = Inr (n, s1)"
    and s': "s' = s1\<lparr>qu := (qu s1)\<lparr>size_done := size_done (qu s1) - 1, size_pq := size_pq (qu s1) - 1\<rparr>,
                    mem := (mem s1)(n := (mem s1 n)\<lparr>info_loc := LOC_NONE\<rparr>)\<rparr>"
    by (auto simp: priorityq_dequeue_def split: sum.splits)
  from dequeue_loop_result [OF wf l] obtain s2 rest where wf2: "wf_state s2"
    and dn: "done_list (qu s2) = n # rest"
    and s1: "s1 = node_clear n (s2\<lparr>qu := (qu s2)\<lparr>done_list := rest\<rparr>\<rparr>)"
    by blast
  have d2: "distinct (all_nodes (qu s2))"
    by (rule wf_distinct [OF wf2])
  have nin: "n \<notin> set rest" "n \<notin> set (immediate (qu s2))" "n \<notin> set (processing (qu s2))"
    "n \<notin> set (concat (bins (qu s2)))"
    using d2 by (auto simp: all_nodes_def q_nodes_def dn)
  have bn: "map (remove1 n) (bins (qu s2)) = bins (qu s2)"
    using nin(4) by (intro map_idI remove1_idem) auto
  have u: "qu (node_unlink_only n s2) = (qu s2)\<lparr>done_list := rest\<rparr>"
    using nin bn by (simp add: node_unlink_only_def dn remove1_idem)
  have li: "linked (mem s2 n)"
    using wf_linked [OF wf2, of n] by (simp add: all_nodes_def dn)
  have nq: "info_loc (mem s2 n) \<noteq> LOC_Q"
    using wf_loc_q [OF wf2, of n] nin by (simp add: q_nodes_def)
  show ?thesis
  proof (rule wf_unlinked [OF wf2 li])
    show "qu s' = (qu (node_unlink_only n s2))\<lparr>size_pq := size_pq (qu s2) - 1,
        size_done := size_done (qu s2) - 1, size_imed := size_imed (qu s2), size_q := size_q (qu s2)\<rparr>"
      by (simp add: u) (simp add: s' s1 node_clear_def)
    show "mem s' = (mem s2)(n := (mem s2 n)\<lparr>linked := False, info_loc := LOC_NONE\<rparr>)"
      by (simp add: s' s1 node_clear_def)
    show "size_q (qu s2) = (if info_loc (mem s2 n) = LOC_Q then size_q (qu s2) - 1 else size_q (qu s2))"
      using nq by simp
    show "size_done (qu s2) - 1 + size_imed (qu s2)
          = (if info_loc (mem s2 n) = LOC_Q then size_done (qu s2) + size_imed (qu s2)
             else size_done (qu s2) + size_imed (qu s2) - 1)"
      using nq by simp
  qed
qed







section \<open>Enqueueing an item that is already in the queue\<close>







section \<open>Bit arithmetic of placement and counter advance\<close>

lemma nat_less_top_diff:
  fixes a b :: nat
  assumes "bit b i" "\<not> bit a i" "\<forall>j>i. bit a j = bit b j"
  shows "a < b"
proof -
  have D: "drop_bit (Suc i) a = drop_bit (Suc i) b"
    by (rule bit_eqI) (simp add: bit_drop_bit_eq assms(3))
  have ta: "take_bit (Suc i) a = take_bit i a"
    using assms(2) by (simp add: take_bit_Suc_from_most)
  have tb: "take_bit (Suc i) b = 2 ^ i + take_bit i b"
    using assms(1) by (simp add: take_bit_Suc_from_most)
  have "take_bit i a < (2 :: nat) ^ i"
    by simp
  then have "take_bit i a < 2 ^ i + take_bit i b"
    by (rule trans_less_add1)
  then have "take_bit (Suc i) a < take_bit (Suc i) b"
    unfolding ta tb .
  then have "push_bit (Suc i) (drop_bit (Suc i) a) + take_bit (Suc i) a
             < push_bit (Suc i) (drop_bit (Suc i) b) + take_bit (Suc i) b"
    unfolding D by simp
  then show ?thesis
    by (simp only: bits_ident)
qed

lemma top_diff_less: "top_diff c r i \<Longrightarrow> c < r"
  unfolding top_diff_def word_less_nat_alt
  by (intro nat_less_top_diff [of _ i]) (simp_all add: bit_unsigned_iff)

lemma top_diff_index: "top_diff c r i \<Longrightarrow> i < 8"
  by (auto simp: top_diff_def dest: bit_imp_le_length)

lemma top_diff_unique: "top_diff c r i \<Longrightarrow> top_diff c r j \<Longrightarrow> i = j"
  unfolding top_diff_def by (metis linorder_neqE_nat)

text \<open>The highest set bit, as \<^verbatim>\<open>31 - __builtin_clz\<close> finds it.\<close>

lemma clz_below_spec:
  "\<exists>j<k. bit n j \<Longrightarrow>
   clz_below k n < k \<and> bit n (k - 1 - clz_below k n)
     \<and> (\<forall>j. k - 1 - clz_below k n < j \<and> j < k \<longrightarrow> \<not> bit n j)"
proof (induction k)
  case 0
  then show ?case by simp
next
  case (Suc k)
  show ?case
  proof (cases "bit n k")
    case True
    then show ?thesis by auto
  next
    case False
    with Suc.prems have "\<exists>j<k. bit n j"
      by (metis less_Suc_eq)
    from Suc.IH [OF this] False show ?thesis
      by (auto simp: less_Suc_eq Suc_diff_Suc)
  qed
qed

lemma get_high_index32_spec:
  assumes "n \<noteq> 0"
  shows "\<exists>h. get_high_index32 n = Inr h \<and> bit n h \<and> (\<forall>j>h. \<not> bit n j)"
proof -
  from assms obtain j where "bit n j"
    by (auto simp: bit_eq_iff)
  then have "\<exists>j<32. bit n j"
    using bit_imp_le_length [of n j] by auto
  from clz_below_spec [OF this]
  have "bit n (31 - builtin_clz n)" "\<forall>j. 31 - builtin_clz n < j \<and> j < 32 \<longrightarrow> \<not> bit n j"
    by (simp_all add: builtin_clz_def)
  moreover have "\<not> bit n j" if "32 \<le> j" for j
    using that bit_imp_le_length [of n j] by auto
  ultimately have "bit n (31 - builtin_clz n) \<and> (\<forall>j>31 - builtin_clz n. \<not> bit n j)"
    by (metis not_le)
  with assms show ?thesis
    by (simp add: get_high_index32_def)
qed

lemma get_high_index32_byte:
  fixes x :: "8 word"
  assumes "x \<noteq> 0"
  shows "\<exists>h. get_high_index32 (ucast x) = Inr h \<and> bit x h \<and> (\<forall>j>h. \<not> bit x j)"
proof -
  have b: "bit (ucast x :: 32 word) j = bit x j" for j
    using bit_imp_le_length [of x j] by (auto simp: bit_unsigned_iff)
  from assms obtain k where "bit x k"
    by (auto simp: bit_eq_iff)
  then have "bit (ucast x :: 32 word) k"
    by (simp add: b)
  then have "(ucast x :: 32 word) \<noteq> 0"
    by auto
  from get_high_index32_spec [OF this] obtain h where
    h: "get_high_index32 (ucast x) = Inr h" "bit (ucast x :: 32 word) h"
      "\<forall>j>h. \<not> bit (ucast x :: 32 word) j"
    by blast
  from h show ?thesis
    by (simp add: b)
qed


lemma placement_top_diff:
  assumes "c < r"
  shows "\<exists>i. get_high_index32 (ucast (r XOR c)) = Inr i \<and> top_diff c r i"
proof -
  have "r XOR c \<noteq> 0"
  proof
    assume "r XOR c = 0"
    then have "bit r j = bit c j" for j
      using bit_xor_iff [of r c j] by simp
    then have "r = c"
      by (simp add: bit_eq_iff)
    with assms show False by simp
  qed
  from get_high_index32_byte [OF this] obtain h where
    h: "get_high_index32 (ucast (r XOR c)) = Inr h" "bit (r XOR c) h" "\<forall>j>h. \<not> bit (r XOR c) j"
    by blast
  from h(2) have d: "bit r h \<noteq> bit c h"
    by (simp add: bit_xor_iff)
  from h(3) have e: "\<forall>j>h. bit r j = bit c j"
    by (simp add: bit_xor_iff)
  have "bit r h"
  proof (rule ccontr)
    assume "\<not> bit r h"
    with d e have "top_diff r c h"
      by (simp add: top_diff_def)
    then have "r < c" by (rule top_diff_less)
    with assms show False by simp
  qed
  with d e h(1) show ?thesis
    by (auto simp: top_diff_def)
qed

lemma less_imp_pred_ge:
  fixes c r :: "8 word"
  shows "c < r \<Longrightarrow> r - 1 \<ge> c"
  by unat_arith

lemma nq_only_above:
  assumes "pc (qu s) < info_rel (mem s p)" "length (bins (qu s)) = 8"
  shows "\<exists>i. top_diff (pc (qu s)) (info_rel (mem s p)) i
    \<and> priorityq_nq_only s p
        = Inr (set_linked p (s\<lparr>qu := (qu s)\<lparr>bins := (bins (qu s))[i := bins (qu s) ! i @ [p]]\<rparr>\<rparr>))"
proof -
  from placement_top_diff [OF assms(1)] obtain i where
    i: "get_high_index32 (ucast (info_rel (mem s p) XOR pc (qu s))) = Inr i"
    and t: "top_diff (pc (qu s)) (info_rel (mem s p)) i"
    by blast
  have "i < 8"
    using t by (rule top_diff_index)
  with i t less_imp_pred_ge [OF assms(1)] assms(2) show ?thesis
    by (auto simp: priorityq_nq_only_def Let_def list_nq_bin_def)
qed

lemma advanced_pc_bits:
  assumes "\<not> bit c i"
  shows "advanced_pc c i = (c AND NOT (mask i)) OR 2 ^ i"
proof -
  have 1: "c OR mask i = (c AND NOT (mask i)) + mask i"
  proof -
    have "(c AND NOT (mask i)) + mask i = (c AND NOT (mask i)) OR mask i"
      by (rule disjunctive_add) (auto simp: bit_simps)
    also have "\<dots> = c OR mask i"
      by (rule bit_eqI) (auto simp: bit_simps)
    finally show ?thesis by simp
  qed
  have 2: "(c AND NOT (mask i)) + 2 ^ i = (c AND NOT (mask i)) OR 2 ^ i"
    by (rule disjunctive_add) (use assms in \<open>auto simp: bit_simps\<close>)
  have "advanced_pc c i = (c OR mask i) + 1"
    by (simp add: advanced_pc_def mask_eq_exp_minus_1)
  also have "\<dots> = (c AND NOT (mask i)) + (mask i + 1)"
    by (simp add: 1)
  also have "\<dots> = (c AND NOT (mask i)) + 2 ^ i"
    by (simp add: mask_eq_exp_minus_1)
  finally show ?thesis
    by (simp add: 2)
qed

lemma bit_advanced_pc:
  assumes "\<not> bit c i" "i < 8"
  shows "bit (advanced_pc c i) j = (j = i \<or> (i < j \<and> bit c j))"
  using assms bit_imp_le_length [of c j]
  by (auto simp: advanced_pc_bits bit_simps)


lemma highest_bit_byte:
  fixes x :: "8 word"
  assumes "x \<noteq> 0"
  obtains h where "bit x h" "\<forall>j>h. \<not> bit x j"
  using get_high_index32_byte [OF assms] by blast

lemma top_diff_advance_keep:
  assumes "top_diff c r i" "i0 < i" "\<not> bit c i0" "i0 < 8"
  shows "top_diff (advanced_pc c i0) r i"
  using assms by (auto simp: top_diff_def bit_advanced_pc)

lemma advanced_pc_greater:
  assumes "\<not> bit c i0" "i0 < 8"
  shows "c < advanced_pc c i0"
proof -
  have "top_diff c (advanced_pc c i0) i0"
    using assms by (auto simp: top_diff_def bit_advanced_pc)
  then show ?thesis by (rule top_diff_less)
qed

lemma top_diff_advance_fired:
  assumes t: "top_diff c r i0" and ne: "r \<noteq> advanced_pc c i0"
  shows "\<exists>j<i0. top_diff (advanced_pc c i0) r j"
proof -
  let ?c' = "advanced_pc c i0"
  have i0: "i0 < 8" using t by (rule top_diff_index)
  have nb: "\<not> bit c i0" using t by (simp add: top_diff_def)
  have hi: "bit ?c' j = bit r j" if "i0 \<le> j" for j
    using that t nb i0 by (auto simp: top_diff_def bit_advanced_pc)
  have lo: "\<not> bit ?c' j" if "j < i0" for j
    using that nb i0 by (simp add: bit_advanced_pc)
  have "r XOR ?c' \<noteq> 0"
  proof
    assume "r XOR ?c' = 0"
    then have "bit r j = bit ?c' j" for j
      using bit_xor_iff [of r ?c' j] by simp
    then have "r = ?c'"
      by (simp add: bit_eq_iff)
    with ne show False by simp
  qed
  then obtain h where h: "bit (r XOR ?c') h" "\<forall>j>h. \<not> bit (r XOR ?c') j"
    by (rule highest_bit_byte)
  from h(1) have d: "bit r h \<noteq> bit ?c' h"
    by (simp add: bit_xor_iff)
  with hi have hl: "h < i0"
    by (metis not_le)
  with lo d have "bit r h" "\<not> bit ?c' h"
    by auto
  moreover from h(2) have "\<forall>j>h. bit r j = bit ?c' j"
    by (simp add: bit_xor_iff)
  ultimately have "top_diff ?c' r h"
    by (simp add: top_diff_def)
  with hl show ?thesis by blast
qed

lemma advanced_pc_le:
  assumes "top_diff c r i0"
  shows "advanced_pc c i0 \<le> r"
proof (cases "r = advanced_pc c i0")
  case True
  then show ?thesis by simp
next
  case False
  from top_diff_advance_fired [OF assms False] obtain j where "top_diff (advanced_pc c i0) r j"
    by blast
  then have "advanced_pc c i0 < r" by (rule top_diff_less)
  then show ?thesis by simp
qed

lemma fired_bins_single:
  assumes "\<not> bit c i0" "i0 \<le> 7"
  shows "fired_bins c (advanced_pc c i0) i0 = [i0]"
proof -
  have i8: "i0 < 8" using assms(2) by simp
  have "filter (bit ((NOT PQ_MASK AND (c XOR advanced_pc c i0)) OR (PQ_MASK AND (NOT c AND advanced_pc c i0))))
          [Suc i0..<8] = []"
    using assms(1) i8 by (auto simp: filter_empty_conv bit_advance_bits bit_advanced_pc)
  then show ?thesis
    using fired_bins_eq [OF assms(2), of c "advanced_pc c i0"] by simp
qed

section \<open>One iteration of the dequeue loop before any wrap-around\<close>

lemma ahead_wf: "ahead_state s \<Longrightarrow> wf_state s"
  and ahead_count: "ahead_state s \<Longrightarrow> length (all_nodes (qu s)) < 2 ^ 32"
  and ahead_size_done: "ahead_state s \<Longrightarrow> size_done (qu s) = of_nat (length (done_list (qu s)))"
  and ahead_size_imed: "ahead_state s \<Longrightarrow> size_imed (qu s) = of_nat (length (immediate (qu s)))"
  and ahead_bins: "ahead_state s \<Longrightarrow> i < 8 \<Longrightarrow> a \<in> set (bins (qu s) ! i) \<Longrightarrow>
      top_diff (pc (qu s)) (rel_of s a) i"
  and ahead_processing: "ahead_state s \<Longrightarrow> a \<in> set (processing (qu s)) \<Longrightarrow> pc (qu s) \<le> rel_of s a"
  and ahead_front: "ahead_state s \<Longrightarrow> a \<in> set (done_list (qu s) @ immediate (qu s)) \<Longrightarrow>
      rel_of s a \<le> pc (qu s)"
  and ahead_distinct: "ahead_state s \<Longrightarrow> distinct (map (rel_of s) (q_nodes (qu s)))"
  unfolding ahead_state_def by blast+

lemma ahead_stateI:
  assumes "wf_state s" "length (all_nodes (qu s)) < 2 ^ 32"
    "size_done (qu s) = of_nat (length (done_list (qu s)))"
    "size_imed (qu s) = of_nat (length (immediate (qu s)))"
    "\<And>i a. i < 8 \<Longrightarrow> a \<in> set (bins (qu s) ! i) \<Longrightarrow> top_diff (pc (qu s)) (rel_of s a) i"
    "\<And>a. a \<in> set (processing (qu s)) \<Longrightarrow> pc (qu s) \<le> rel_of s a"
    "\<And>a. a \<in> set (done_list (qu s) @ immediate (qu s)) \<Longrightarrow> rel_of s a \<le> pc (qu s)"
    "distinct (map (rel_of s) (q_nodes (qu s)))"
  shows "ahead_state s"
  using assms unfolding ahead_state_def by blast

lemma word32_of_nat_eq_0: "n < 2 ^ 32 \<Longrightarrow> ((of_nat n :: 32 word) = 0) = (n = 0)"
  using of_nat_32_neq_0 [of n] by auto

lemma word32_of_nat_less:
  "m < 2 ^ 32 \<Longrightarrow> n < 2 ^ 32 \<Longrightarrow> ((of_nat m :: 32 word) < of_nat n) = (m < n)"
  by (simp add: word_less_nat_alt unat_of_nat take_bit_nat_eq_self)

lemma ahead_imed_bound: "ahead_state s \<Longrightarrow> length (immediate (qu s)) < 2 ^ 32"
  and ahead_done_bound: "ahead_state s \<Longrightarrow> length (done_list (qu s)) < 2 ^ 32"
  and ahead_q_bound: "ahead_state s \<Longrightarrow> length (q_nodes (qu s)) < 2 ^ 32"
  using ahead_count [of s] by (simp_all add: all_nodes_def)

lemma get_high_index32_le:
  assumes "n \<noteq> 0"
  obtains h where "get_high_index32 n = Inr h" "h \<le> 31"
  using assms by (simp add: get_high_index32_def)

text \<open>The immediate drain.\<close>

lemma ahead_advance_immediates:
  assumes a: "ahead_state s"
  shows "\<exists>q1. priorityq_advance_immediates (qu s) = Inr q1
    \<and> done_list q1 @ immediate q1 = done_list (qu s) @ immediate (qu s)
    \<and> processing q1 = processing (qu s) \<and> bins q1 = bins (qu s) \<and> pc q1 = pc (qu s)
    \<and> size_q q1 = size_q (qu s) \<and> size_pq q1 = size_pq (qu s)
    \<and> size_done q1 = of_nat (length (done_list q1))
    \<and> size_imed q1 = of_nat (length (immediate q1))
    \<and> (done_list q1 = [] \<longrightarrow> immediate q1 = [] \<or> counter_imed q1 \<noteq> 0)
    \<and> (immediate (qu s) \<noteq> [] \<and> counter_imed (qu s) \<noteq> 0 \<longrightarrow> done_list q1 \<noteq> [])
    \<and> length (done_list (qu s)) \<le> length (done_list q1)"
proof -
  let ?q = "qu s"
  note sd = ahead_size_done [OF a] and si = ahead_size_imed [OF a]
  note bi = ahead_imed_bound [OF a] and bd = ahead_done_bound [OF a]
  show ?thesis
  proof (cases "immediate ?q")
    case Nil
    then show ?thesis
      using sd si by (simp add: priorityq_advance_immediates_def)
  next
    case (Cons n rest)
    then have "0 < length (immediate ?q)"
      by simp
    then have nz: "size_imed ?q \<noteq> 0"
      unfolding si using bi by (rule of_nat_32_neq_0)
    show ?thesis
    proof (cases "counter_imed ?q = 0")
      case True
      from nz obtain h where h: "get_high_index32 (size_imed ?q) = Inr h" "h \<le> 31"
        by (rule get_high_index32_le)
      have "(of_nat (h + 1) :: 32 word) \<noteq> 0"
        using h(2) by (intro of_nat_32_neq_0) simp_all
      then show ?thesis
        using True nz h(1) sd si
        by (simp add: priorityq_advance_immediates_def)
    next
      case False
      let ?q1 = "?q\<lparr>immediate := rest, done_list := done_list ?q @ [n],
                      size_imed := size_imed ?q - 1, size_done := size_done ?q + 1\<rparr>"
      have i1: "immediate_to_done ?q = Inr ?q1"
        using Cons by (simp add: immediate_to_done_def)
      have si1: "size_imed ?q1 = of_nat (length rest)"
        using si Cons by simp
      have sd1: "size_done ?q1 = of_nat (length (done_list ?q1))"
        using sd by simp
      show ?thesis
      proof (cases "size_done ?q1 < size_imed ?q1 \<and> size_imed ?q1 AND 1 = 0")
        case both: True
        then have "size_imed ?q1 \<noteq> 0"
          by auto
        then obtain m rest' where r: "rest = m # rest'"
          unfolding si1 by (cases rest) simp_all
        let ?q2 = "?q1\<lparr>immediate := rest', done_list := done_list ?q1 @ [m],
                      size_imed := size_imed ?q1 - 1, size_done := size_done ?q1 + 1\<rparr>"
        have i2: "immediate_to_done ?q1 = Inr ?q2"
          using r by (simp add: immediate_to_done_def)
        have res: "priorityq_advance_immediates ?q = Inr (?q2\<lparr>counter_imed := drop_bit 1 (counter_imed ?q2)\<rparr>)"
          using nz False i1 i2 both
          by (simp add: priorityq_advance_immediates_def del: immediate_to_done_def)
        show ?thesis
          unfolding res using Cons r sd si by simp
      next
        case nb: False
        have res: "\<exists>c. priorityq_advance_immediates ?q = Inr (?q1\<lparr>counter_imed := c\<rparr>)"
          using nz False i1 nb
          by (auto simp add: priorityq_advance_immediates_def)
        then obtain c where res: "priorityq_advance_immediates ?q = Inr (?q1\<lparr>counter_imed := c\<rparr>)"
          by blast
        show ?thesis
          unfolding res using Cons sd si by simp
      qed
    qed
  qed
qed


text \<open>The counter advance.\<close>

lemma concat_nonempty_nth: "concat xss \<noteq> [] \<Longrightarrow> \<exists>i<length xss. xss ! i \<noteq> []"
  by (induction xss) (auto simp: nth_Cons split: nat.splits)

lemma ahead_bin_bit:
  assumes "ahead_state s" "i < 8" "bins (qu s) ! i \<noteq> []"
  shows "\<not> bit (pc (qu s)) i"
proof -
  from assms(3) obtain a where "a \<in> set (bins (qu s) ! i)"
    by (cases "bins (qu s) ! i") auto
  from ahead_bins [OF assms(1,2) this] show ?thesis
    by (simp add: top_diff_def)
qed

lemma ahead_lowest_ready_bin:
  assumes a: "ahead_state s" and p: "processing (qu s) = []" and q: "q_nodes (qu s) \<noteq> []"
  shows "lowest_ready_bin (qu s) \<le> 7 \<and> bins (qu s) ! lowest_ready_bin (qu s) \<noteq> []
    \<and> \<not> bit (pc (qu s)) (lowest_ready_bin (qu s))
    \<and> (\<forall>j<lowest_ready_bin (qu s). bins (qu s) ! j = [])"
proof -
  let ?P = "\<lambda>i. bins (qu s) ! i \<noteq> [] \<and> \<not> bit (pc (qu s)) i"
  have len: "length (bins (qu s)) = 8"
    using wf_bins [OF ahead_wf [OF a]] .
  show ?thesis
  proof (cases "List.find ?P [0..<7]")
    case None
    then have e: "bins (qu s) ! j = []" if "j < 7" for j
      using that ahead_bin_bit [OF a, of j] by (auto simp: find_None_iff)
    from p q have "concat (bins (qu s)) \<noteq> []"
      by (simp add: q_nodes_def)
    from concat_nonempty_nth [OF this] obtain i where i: "i < 8" "bins (qu s) ! i \<noteq> []"
      using len by auto
    with e have "i = 7"
      by (metis less_Suc_eq numeral_eq_Suc pred_numeral_simps(2,3) semiring_norm(26,27)
          eval_nat_numeral(3))
    with i ahead_bin_bit [OF a, of 7] e None show ?thesis
      by (simp add: lowest_ready_bin_def)
  next
    case (Some i)
    then obtain k where k: "k < length [0..<7]" "?P ([0..<7] ! k)" "i = [0..<7] ! k"
      "\<forall>j<k. \<not> ?P ([0..<7] ! j)"
      unfolding find_Some_iff by blast
    then have i7: "i < 7" and Pi: "?P i" and lo: "\<forall>j<i. \<not> ?P j"
      by auto
    have "bins (qu s) ! j = []" if "j < i" for j
      using lo that i7 ahead_bin_bit [OF a, of j] by auto
    with i7 Pi Some show ?thesis
      by (simp add: lowest_ready_bin_def)
  qed
qed

lemma splice_bins_single:
  assumes "length (bins q) = 8" "i \<le> 7"
  shows "splice_bins [i] q = q\<lparr>processing := processing q @ bins q ! i, bins := (bins q)[i := []]\<rparr>"
  using splice_seq_bins [of "[i]" q] assms by simp

lemma mset_map_cong_mset: "mset xs = mset ys \<Longrightarrow> mset (map f xs) = mset (map f ys)"
  by simp

lemma sum_list_mset_cong:
  fixes f :: "'a \<Rightarrow> nat"
  shows "mset xs = mset ys \<Longrightarrow> sum_list (map f xs) = sum_list (map f ys)"
  by (metis mset_map sum_mset_sum_list)

lemma ahead_advance_counter:
  assumes a: "ahead_state s" and p: "processing (qu s) = []" and q: "q_nodes (qu s) \<noteq> []"
  shows "\<exists>s'. priorityq_advance_priority_queue s = Inr s' \<and> ahead_state s'
    \<and> out_order s' = out_order s \<and> work_left s' < work_left s
    \<and> done_list (qu s') = done_list (qu s) \<and> immediate (qu s') = immediate (qu s)
    \<and> counter_imed (qu s') = counter_imed (qu s) \<and> mem s' = mem s
    \<and> pc (qu s) < pc (qu s') \<and> (\<exists>b\<in>set (q_nodes (qu s)). pc (qu s') \<le> rel_of s b)
    \<and> mset (q_nodes (qu s')) = mset (q_nodes (qu s))"
proof -
  let ?q = "qu s"
  let ?i = "lowest_ready_bin ?q"
  let ?c = "pc ?q"
  let ?c' = "advanced_pc ?c ?i"
  have wf: "wf_state s" using a by (rule ahead_wf)
  have len: "length (bins ?q) = 8" using wf by (rule wf_bins)
  from ahead_lowest_ready_bin [OF a p q]
  have i7: "?i \<le> 7" and ne: "bins ?q ! ?i \<noteq> []" and nb: "\<not> bit ?c ?i"
    and lo: "\<forall>j<?i. bins ?q ! j = []"
    by blast+
  have i8: "?i < 8" using i7 by simp
  define q' where "q' = ?q\<lparr>processing := bins ?q ! ?i, bins := (bins ?q)[?i := []], pc := ?c'\<rparr>"
  define s' where "s' = s\<lparr>qu := q'\<rparr>"
  have ac: "priorityq_advance_priority_counter ?q = Inr q'"
    using advance_counter_spec [OF len] fired_bins_single [OF nb i7] splice_bins_single [OF len i7] p
    by (simp add: Let_def q'_def)
  have nz: "size_q ?q \<noteq> 0"
  proof -
    have "0 < length (q_nodes ?q)" using q by simp
    then show ?thesis
      unfolding wf_size_q [OF wf] using ahead_q_bound [OF a] by (rule of_nat_32_neq_0)
  qed
  have res: "priorityq_advance_priority_queue s = Inr s'"
    using nz p ac by (simp add: priorityq_advance_priority_queue_def s'_def)
  have wf': "wf_state s'"
    unfolding s'_def using wf ac by (rule wf_advance_counter)
  have Q: "mset (q_nodes (qu s')) = mset (q_nodes ?q)"
    using mset_concat_update [of ?i "bins ?q" "[]"] i8 len p
    by (simp add: s'_def q'_def q_nodes_def add.commute)
  have m: "mem s' = mem s" and r: "rel_of s' = rel_of s"
    by (simp_all add: s'_def rel_of_def fun_eq_iff)
  have f: "done_list (qu s') = done_list ?q" "immediate (qu s') = immediate ?q"
    "size_done (qu s') = size_done ?q" "size_imed (qu s') = size_imed ?q"
    "counter_imed (qu s') = counter_imed ?q" "pc (qu s') = ?c'"
    "processing (qu s') = bins ?q ! ?i" "bins (qu s') = (bins ?q)[?i := []]"
    by (simp_all add: s'_def q'_def)
  have A: "mset (all_nodes (qu s')) = mset (all_nodes ?q)"
    using Q f by (simp add: all_nodes_def)
  have gt: "?c < ?c'"
    using nb i8 by (rule advanced_pc_greater)
  have bin_keep: "top_diff ?c' (rel_of s b) j" if "j < 8" "b \<in> set (bins ?q ! j)" "j \<noteq> ?i" for j b
  proof -
    have "bins ?q ! j \<noteq> []" using that(2) by auto
    with lo have "\<not> j < ?i" by blast
    with that(3) have "?i < j" by simp
    with ahead_bins [OF a that(1,2)] nb i8 show ?thesis
      by (intro top_diff_advance_keep)
  qed
  have fired_le: "?c' \<le> rel_of s b" if "b \<in> set (bins ?q ! ?i)" for b
    using ahead_bins [OF a i8 that] by (rule advanced_pc_le)
  have all_le: "?c' \<le> rel_of s b" if "b \<in> set (q_nodes ?q)" for b
  proof -
    from that p obtain j where j: "j < 8" "b \<in> set (bins ?q ! j)"
      using len by (auto simp: q_nodes_def set_conv_nth [of "bins ?q"])
    show ?thesis
    proof (cases "j = ?i")
      case True
      with j fired_le show ?thesis by simp
    next
      case False
      from top_diff_less [OF bin_keep [OF j False]] show ?thesis by simp
    qed
  qed
  have ah: "ahead_state s'"
  proof (rule ahead_stateI)
    show "wf_state s'" by (rule wf')
    show "length (all_nodes (qu s')) < 2 ^ 32"
      using mset_eq_length [OF A] ahead_count [OF a] by simp
    show "size_done (qu s') = of_nat (length (done_list (qu s')))"
      using ahead_size_done [OF a] by (simp add: f)
    show "size_imed (qu s') = of_nat (length (immediate (qu s')))"
      using ahead_size_imed [OF a] by (simp add: f)
    show "top_diff (pc (qu s')) (rel_of s' b) j" if "j < 8" "b \<in> set (bins (qu s') ! j)" for j b
    proof -
      have "(bins ?q)[?i := []] ! j = (if j = ?i then [] else bins ?q ! j)"
        using that(1) len by (simp add: nth_list_update)
      with that(2) have "j \<noteq> ?i" "b \<in> set (bins ?q ! j)"
        by (auto simp: f split: if_splits)
      with bin_keep [OF that(1)] show ?thesis
        by (simp add: f r)
    qed
    show "pc (qu s') \<le> rel_of s' b" if "b \<in> set (processing (qu s'))" for b
      using that fired_le by (simp add: f r)
    show "rel_of s' b \<le> pc (qu s')" if "b \<in> set (done_list (qu s') @ immediate (qu s'))" for b
      using ahead_front [OF a, of b] that gt by (simp add: f r)
    show "distinct (map (rel_of s') (q_nodes (qu s')))"
      using mset_eq_imp_distinct_iff [OF mset_map_cong_mset [OF Q, of "rel_of s"]] ahead_distinct [OF a]
      by (simp add: r)
  qed
  have inj: "inj_on (rel_of s) (set (q_nodes (qu s')))"
    using ahead_distinct [OF a] mset_eq_setD [OF Q] by (simp add: distinct_map)
  have out: "out_order s' = out_order s"
    using sort_key_eq_sort_key [OF Q inj] by (simp add: out_order_def f r)
  have "work_left s' = sum_list (map (\<lambda>b. unat (rel_of s b) - unat ?c') (q_nodes ?q))"
    using sum_list_mset_cong [OF Q] by (simp add: work_left_def r f)
  also have "\<dots> < sum_list (map (\<lambda>b. unat (rel_of s b) - unat ?c) (q_nodes ?q))"
  proof (rule sum_list_strict_mono [OF q])
    fix b assume "b \<in> set (q_nodes ?q)"
    from all_le [OF this] gt show "unat (rel_of s b) - unat ?c' < unat (rel_of s b) - unat ?c"
      by (simp add: word_le_nat_alt word_less_nat_alt)
  qed
  finally have w: "work_left s' < work_left s"
    by (simp add: work_left_def)
  obtain b where b: "b \<in> set (q_nodes ?q)"
    using q by (cases "q_nodes ?q") auto
  show ?thesis
    using res ah out w f m gt Q all_le [OF b] b
    by (intro exI [of _ s']) auto
qed


text \<open>The drain of the processing ring.\<close>

lemma ahead_q_nodes_ge:
  assumes a: "ahead_state s" and b: "b \<in> set (q_nodes (qu s))"
  shows "pc (qu s) \<le> rel_of s b"
proof (cases "b \<in> set (processing (qu s))")
  case True
  with a show ?thesis by (rule ahead_processing)
next
  case False
  with b obtain j where "j < 8" "b \<in> set (bins (qu s) ! j)"
    using wf_bins [OF ahead_wf [OF a]]
    by (auto simp: q_nodes_def set_conv_nth [of "bins (qu s)"])
  from top_diff_less [OF ahead_bins [OF a this]] show ?thesis by simp
qed

lemma ahead_processing_step:
  assumes a: "ahead_state s" and pr: "processing (qu s) = p # rest"
  shows "\<exists>s'. processing_step s = Inr s' \<and> ahead_state s'
    \<and> out_order s' = out_order s \<and> work_left s' = work_left s
    \<and> processing (qu s') = rest \<and> done_list (qu s') = done_list (qu s)
    \<and> pc (qu s') = pc (qu s) \<and> counter_imed (qu s') = counter_imed (qu s)
    \<and> rel_of s' = rel_of s \<and> set (q_nodes (qu s')) \<subseteq> set (q_nodes (qu s))"
proof -
  let ?q = "qu s"
  let ?s1 = "s\<lparr>qu := ?q\<lparr>processing := rest\<rparr>\<rparr>"
  have wf: "wf_state s" using a by (rule ahead_wf)
  have len: "length (bins ?q) = 8" using wf by (rule wf_bins)
  have pge: "pc ?q \<le> rel_of s p"
    using ahead_processing [OF a, of p] pr by simp
  show ?thesis
  proof (cases "rel_of s p = pc ?q")
    case False
    with pge have lt: "pc (qu ?s1) < info_rel (mem ?s1 p)"
      by (simp add: rel_of_def)
    from nq_only_above [OF lt] len obtain i where t: "top_diff (pc ?q) (rel_of s p) i"
      and n: "priorityq_nq_only ?s1 p
         = Inr (set_linked p (?s1\<lparr>qu := (qu ?s1)\<lparr>bins := (bins (qu ?s1))[i := bins (qu ?s1) ! i @ [p]]\<rparr>\<rparr>))"
      by (auto simp: rel_of_def)
    define s' where "s' = set_linked p (?s1\<lparr>qu := (qu ?s1)\<lparr>bins := (bins (qu ?s1))[i := bins (qu ?s1) ! i @ [p]]\<rparr>\<rparr>)"
    have i8: "i < 8" using t by (rule top_diff_index)
    have res: "processing_step s = Inr s'"
      using pr False n by (simp add: processing_step_def rel_of_def s'_def)
    have wf': "wf_state s'"
      using wf res by (rule wf_processing_step)
    have r: "rel_of s' = rel_of s"
      by (simp add: s'_def set_linked_def rel_of_def fun_eq_iff)
    have f: "done_list (qu s') = done_list ?q" "immediate (qu s') = immediate ?q"
      "size_done (qu s') = size_done ?q" "size_imed (qu s') = size_imed ?q"
      "counter_imed (qu s') = counter_imed ?q" "pc (qu s') = pc ?q"
      "processing (qu s') = rest" "bins (qu s') = (bins ?q)[i := bins ?q ! i @ [p]]"
      by (simp_all add: s'_def set_linked_def)
    have Q: "mset (q_nodes (qu s')) = mset (q_nodes ?q)"
      using mset_concat_update [of i "bins ?q" "bins ?q ! i @ [p]"] i8 len
      by (simp add: f q_nodes_def pr)
    have A: "mset (all_nodes (qu s')) = mset (all_nodes ?q)"
      using Q f by (simp add: all_nodes_def)
    have ah: "ahead_state s'"
    proof (rule ahead_stateI)
      show "wf_state s'" by (rule wf')
      show "length (all_nodes (qu s')) < 2 ^ 32"
        using mset_eq_length [OF A] ahead_count [OF a] by simp
      show "size_done (qu s') = of_nat (length (done_list (qu s')))"
        using ahead_size_done [OF a] by (simp add: f)
      show "size_imed (qu s') = of_nat (length (immediate (qu s')))"
        using ahead_size_imed [OF a] by (simp add: f)
      show "top_diff (pc (qu s')) (rel_of s' b) j" if "j < 8" "b \<in> set (bins (qu s') ! j)" for j b
      proof -
        have "(bins ?q)[i := bins ?q ! i @ [p]] ! j = (if j = i then bins ?q ! i @ [p] else bins ?q ! j)"
          using that(1) len by (simp add: nth_list_update)
        with that(2) have "b \<in> set (bins ?q ! j) \<or> (j = i \<and> b = p)"
          by (auto simp: f split: if_splits)
        with ahead_bins [OF a that(1), of b] t show ?thesis
          by (auto simp: f r)
      qed
      show "pc (qu s') \<le> rel_of s' b" if "b \<in> set (processing (qu s'))" for b
        using that ahead_processing [OF a, of b] by (simp add: f r pr)
      show "rel_of s' b \<le> pc (qu s')" if "b \<in> set (done_list (qu s') @ immediate (qu s'))" for b
        using ahead_front [OF a, of b] that by (simp add: f r)
      show "distinct (map (rel_of s') (q_nodes (qu s')))"
        using mset_eq_imp_distinct_iff [OF mset_map_cong_mset [OF Q, of "rel_of s"]] ahead_distinct [OF a]
        by (simp add: r)
    qed
    have inj: "inj_on (rel_of s) (set (q_nodes (qu s')))"
      using ahead_distinct [OF a] mset_eq_setD [OF Q] by (simp add: distinct_map)
    have out: "out_order s' = out_order s"
      using sort_key_eq_sort_key [OF Q inj] by (simp add: out_order_def f r)
    have w: "work_left s' = work_left s"
      using sum_list_mset_cong [OF Q] by (simp add: work_left_def r f)
    show ?thesis
      using res ah out w f r mset_eq_setD [OF Q]
      by (intro exI [of _ s']) simp
  next
    case True
    define s' where "s' = list_nq_immediate p
        (?s1\<lparr>qu := (qu ?s1)\<lparr>size_q := size_q (qu ?s1) - 1, size_imed := size_imed (qu ?s1) + 1\<rparr>,
             mem := (mem ?s1)(p := (mem ?s1 p)\<lparr>info_loc := LOC_IMED\<rparr>)\<rparr>)"
    have res: "processing_step s = Inr s'"
      using pr True by (simp add: processing_step_def rel_of_def s'_def)
    have wf': "wf_state s'"
      using wf res by (rule wf_processing_step)
    have r: "rel_of s' = rel_of s"
      by (simp add: s'_def list_nq_immediate_def set_linked_def rel_of_def fun_eq_iff)
    have f: "done_list (qu s') = done_list ?q" "immediate (qu s') = immediate ?q @ [p]"
      "size_done (qu s') = size_done ?q" "size_imed (qu s') = size_imed ?q + 1"
      "counter_imed (qu s') = counter_imed ?q" "pc (qu s') = pc ?q"
      "processing (qu s') = rest" "bins (qu s') = bins ?q"
      by (simp_all add: s'_def list_nq_immediate_def set_linked_def)
    have qs: "q_nodes ?q = p # q_nodes (qu s')"
      by (simp add: q_nodes_def f pr)
    have A: "mset (all_nodes (qu s')) = mset (all_nodes ?q)"
      by (simp add: all_nodes_def qs f)
    have ah: "ahead_state s'"
    proof (rule ahead_stateI)
      show "wf_state s'" by (rule wf')
      show "length (all_nodes (qu s')) < 2 ^ 32"
        using mset_eq_length [OF A] ahead_count [OF a] by simp
      show "size_done (qu s') = of_nat (length (done_list (qu s')))"
        using ahead_size_done [OF a] by (simp add: f)
      show "size_imed (qu s') = of_nat (length (immediate (qu s')))"
        using ahead_size_imed [OF a] by (simp add: f)
      show "top_diff (pc (qu s')) (rel_of s' b) j" if "j < 8" "b \<in> set (bins (qu s') ! j)" for j b
        using ahead_bins [OF a that(1), of b] that(2) by (simp add: f r)
      show "pc (qu s') \<le> rel_of s' b" if "b \<in> set (processing (qu s'))" for b
        using that ahead_processing [OF a, of b] by (simp add: f r pr)
      show "rel_of s' b \<le> pc (qu s')" if "b \<in> set (done_list (qu s') @ immediate (qu s'))" for b
        using ahead_front [OF a, of b] that True by (auto simp add: f r)
      show "distinct (map (rel_of s') (q_nodes (qu s')))"
        using ahead_distinct [OF a] by (simp add: r qs)
    qed
    have "\<forall>x\<in>set (sort_key (rel_of s) (q_nodes (qu s'))). rel_of s p \<le> rel_of s x"
      using ahead_q_nodes_ge [OF a] True by (simp add: qs)
    then have "sort_key (rel_of s) (q_nodes ?q) = p # sort_key (rel_of s) (q_nodes (qu s'))"
      unfolding qs sort_key_simps by (rule insort_is_Cons)
    then have out: "out_order s' = out_order s"
      by (simp add: out_order_def f r)
    have w: "work_left s' = work_left s"
      using True by (simp add: work_left_def qs r f)
    show ?thesis
      using res ah out w f r qs
      by (intro exI [of _ s']) auto
  qed
qed

lemma ahead_processing_loop:
  assumes "ahead_state s" "processing (qu s) \<noteq> []"
  shows "\<exists>s'. processing_loop (Suc l) s = Inr s' \<and> ahead_state s'
    \<and> out_order s' = out_order s \<and> work_left s' = work_left s
    \<and> processing_left s' < processing_left s \<and> done_list (qu s') = done_list (qu s)
    \<and> pc (qu s') = pc (qu s) \<and> counter_imed (qu s') = counter_imed (qu s)
    \<and> rel_of s' = rel_of s \<and> set (q_nodes (qu s')) \<subseteq> set (q_nodes (qu s))"
  using assms
proof (induction l arbitrary: s)
  case 0
  from 0(2) obtain p rest where pr: "processing (qu s) = p # rest"
    by (cases "processing (qu s)") auto
  from ahead_processing_step [OF 0(1) pr] pr show ?case
    by (auto simp: processing_left_def)
next
  case (Suc l)
  from Suc.prems(2) obtain p rest where pr: "processing (qu s) = p # rest"
    by (cases "processing (qu s)") auto
  from ahead_processing_step [OF Suc.prems(1) pr] obtain s1 where
    st: "processing_step s = Inr s1" and a1: "ahead_state s1"
    and k: "out_order s1 = out_order s" "work_left s1 = work_left s" "processing (qu s1) = rest"
      "done_list (qu s1) = done_list (qu s)" "pc (qu s1) = pc (qu s)"
      "counter_imed (qu s1) = counter_imed (qu s)" "rel_of s1 = rel_of s"
      "set (q_nodes (qu s1)) \<subseteq> set (q_nodes (qu s))"
    by blast
  show ?case
  proof (cases "rest = []")
    case True
    with st a1 k pr show ?thesis
      by (auto simp: processing_left_def)
  next
    case False
    with k(3) have ne: "processing (qu s1) \<noteq> []" by simp
    from Suc.IH [OF a1 ne] obtain s' where
      l: "processing_loop (Suc l) s1 = Inr s'" and a': "ahead_state s'"
      and k': "out_order s' = out_order s1" "work_left s' = work_left s1"
        "processing_left s' < processing_left s1"
        "done_list (qu s') = done_list (qu s1)" "pc (qu s') = pc (qu s1)"
        "counter_imed (qu s') = counter_imed (qu s1)" "rel_of s' = rel_of s1"
        "set (q_nodes (qu s')) \<subseteq> set (q_nodes (qu s1))"
      by blast
    have "processing_loop (Suc (Suc l)) s = Inr s'"
      using st ne l by simp
    moreover have "processing_left s' < processing_left s"
      using k'(3) k(3) pr by (simp add: processing_left_def)
    ultimately show ?thesis
      using a' k k' by (intro exI [of _ s']) auto
  qed
qed


text \<open>One iteration of the loop, and the loop.\<close>

lemma length_out_order: "length (out_order s) = length (all_nodes (qu s))"
  by (simp add: out_order_def all_nodes_def)

lemma ahead_size_q_zero:
  assumes "ahead_state s"
  shows "(size_q (qu s) = 0) = (q_nodes (qu s) = [])"
  using wf_size_q [OF ahead_wf [OF assms]] word32_of_nat_eq_0 [OF ahead_q_bound [OF assms]]
  by simp

lemma ahead_advance_priority_queue:
  assumes a: "ahead_state s"
  shows "\<exists>s'. priorityq_advance_priority_queue s = Inr s' \<and> ahead_state s'
    \<and> out_order s' = out_order s \<and> done_list (qu s') = done_list (qu s)
    \<and> counter_imed (qu s') = counter_imed (qu s) \<and> rel_of s' = rel_of s
    \<and> pc (qu s) \<le> pc (qu s')
    \<and> (pc (qu s') = pc (qu s) \<or> (\<exists>b\<in>set (q_nodes (qu s)). pc (qu s') \<le> rel_of s b))
    \<and> set (q_nodes (qu s')) \<subseteq> set (q_nodes (qu s))
    \<and> (q_nodes (qu s) \<noteq> [] \<longrightarrow>
         work_left s' < work_left s
         \<or> (work_left s' = work_left s \<and> processing_left s' < processing_left s))
    \<and> (q_nodes (qu s) = [] \<longrightarrow> s' = s)"
proof (cases "q_nodes (qu s) = []")
  case True
  then have "size_q (qu s) = 0"
    using ahead_size_q_zero [OF a] by simp
  then have "priorityq_advance_priority_queue s = Inr s"
    by (simp add: priorityq_advance_priority_queue_def)
  with a True show ?thesis by simp
next
  case False
  then have nz: "size_q (qu s) \<noteq> 0"
    using ahead_size_q_zero [OF a] by simp
  show ?thesis
  proof (cases "processing (qu s) = []")
    case True
    from ahead_advance_counter [OF a True False] obtain s' where
      k: "priorityq_advance_priority_queue s = Inr s'" "ahead_state s'"
      "out_order s' = out_order s" "work_left s' < work_left s"
      "done_list (qu s') = done_list (qu s)" "counter_imed (qu s') = counter_imed (qu s)"
      and m: "mem s' = mem s" and lt: "pc (qu s) < pc (qu s')"
      and b: "\<exists>b\<in>set (q_nodes (qu s)). pc (qu s') \<le> rel_of s b"
      and ms: "mset (q_nodes (qu s')) = mset (q_nodes (qu s))"
      by blast
    have r: "rel_of s' = rel_of s"
      using m by (simp add: rel_of_def fun_eq_iff)
    have st: "set (q_nodes (qu s')) \<subseteq> set (q_nodes (qu s))"
      using mset_eq_setD [OF ms] by simp
    have le: "pc (qu s) \<le> pc (qu s')"
      using lt by simp
    show ?thesis
      using k r st le b False by blast
  next
    case ne: False
    from nz obtain h where h: "get_high_index32 (size_q (qu s)) = Inr h"
      by (rule get_high_index32_le)
    from ahead_processing_loop [OF a ne, of h] obtain s' where
      l: "processing_loop (Suc h) s = Inr s'" and k: "ahead_state s'"
      "out_order s' = out_order s" "work_left s' = work_left s"
      "processing_left s' < processing_left s" "done_list (qu s') = done_list (qu s)"
      "pc (qu s') = pc (qu s)" "counter_imed (qu s') = counter_imed (qu s)"
      "rel_of s' = rel_of s" "set (q_nodes (qu s')) \<subseteq> set (q_nodes (qu s))"
      by blast
    have "priorityq_advance_priority_queue s = Inr s'"
      using nz ne h l by (simp add: priorityq_advance_priority_queue_def)
    moreover have "pc (qu s) \<le> pc (qu s')"
      using k(6) by simp
    ultimately show ?thesis
      using k False by blast
  qed
qed

lemma ahead_after_immediates:
  assumes a: "ahead_state s" and i: "priorityq_advance_immediates (qu s) = Inr q1"
    and k: "done_list q1 @ immediate q1 = done_list (qu s) @ immediate (qu s)"
      "processing q1 = processing (qu s)" "bins q1 = bins (qu s)" "pc q1 = pc (qu s)"
      "size_done q1 = of_nat (length (done_list q1))"
      "size_imed q1 = of_nat (length (immediate q1))"
  shows "ahead_state (s\<lparr>qu := q1\<rparr>) \<and> out_order (s\<lparr>qu := q1\<rparr>) = out_order s
    \<and> work_left (s\<lparr>qu := q1\<rparr>) = work_left s
    \<and> processing_left (s\<lparr>qu := q1\<rparr>) = processing_left s
    \<and> rel_of (s\<lparr>qu := q1\<rparr>) = rel_of s \<and> q_nodes q1 = q_nodes (qu s)"
proof -
  have r: "rel_of (s\<lparr>qu := q1\<rparr>) = rel_of s"
    by (simp add: rel_of_def fun_eq_iff)
  have Q: "q_nodes q1 = q_nodes (qu s)"
    by (simp add: q_nodes_def k)
  have A: "all_nodes q1 = all_nodes (qu s)"
    by (simp add: all_nodes_def k Q)
  have ah: "ahead_state (s\<lparr>qu := q1\<rparr>)"
  proof (rule ahead_stateI)
    show "wf_state (s\<lparr>qu := q1\<rparr>)"
      using ahead_wf [OF a] i by (rule wf_advance_immediates)
    show "length (all_nodes (qu (s\<lparr>qu := q1\<rparr>))) < 2 ^ 32"
      using ahead_count [OF a] by (simp add: A)
    show "top_diff (pc (qu (s\<lparr>qu := q1\<rparr>))) (rel_of (s\<lparr>qu := q1\<rparr>) b) j"
      if "j < 8" "b \<in> set (bins (qu (s\<lparr>qu := q1\<rparr>)) ! j)" for j b
      using ahead_bins [OF a that(1), of b] that(2) by (simp add: k r)
    show "pc (qu (s\<lparr>qu := q1\<rparr>)) \<le> rel_of (s\<lparr>qu := q1\<rparr>) b"
      if "b \<in> set (processing (qu (s\<lparr>qu := q1\<rparr>)))" for b
      using ahead_processing [OF a, of b] that by (simp add: k r)
    show "rel_of (s\<lparr>qu := q1\<rparr>) b \<le> pc (qu (s\<lparr>qu := q1\<rparr>))"
      if "b \<in> set (done_list (qu (s\<lparr>qu := q1\<rparr>)) @ immediate (qu (s\<lparr>qu := q1\<rparr>)))" for b
      using ahead_front [OF a, of b] that by (simp add: k r)
    show "distinct (map (rel_of (s\<lparr>qu := q1\<rparr>)) (q_nodes (qu (s\<lparr>qu := q1\<rparr>))))"
      using ahead_distinct [OF a] by (simp add: Q r)
  qed (simp_all add: k)
  have "out_order (s\<lparr>qu := q1\<rparr>) = (done_list q1 @ immediate q1) @ sort_key (rel_of s) (q_nodes (qu s))"
    by (simp add: out_order_def Q r)
  then have "out_order (s\<lparr>qu := q1\<rparr>) = out_order s"
    by (simp add: k out_order_def)
  with ah r Q show ?thesis
    by (simp add: work_left_def processing_left_def k)
qed

lemma ahead_iteration:
  assumes a: "ahead_state s" and ne: "all_nodes (qu s) \<noteq> []"
  shows "\<exists>q1 s2. priorityq_advance_immediates (qu s) = Inr q1
    \<and> priorityq_advance_priority_queue (s\<lparr>qu := q1\<rparr>) = Inr s2
    \<and> ahead_state s2 \<and> out_order s2 = out_order s \<and> rel_of s2 = rel_of s
    \<and> pc (qu s) \<le> pc (qu s2)
    \<and> (pc (qu s2) = pc (qu s) \<or> (\<exists>b\<in>set (q_nodes (qu s)). pc (qu s2) \<le> rel_of s b))
    \<and> set (q_nodes (qu s2)) \<subseteq> set (q_nodes (qu s))
    \<and> (done_list (qu s2) = [] \<longrightarrow> (s2, s) \<in> measures [work_left, processing_left, imed_idle])"
proof -
  from ahead_advance_immediates [OF a] obtain q1 where
    i: "priorityq_advance_immediates (qu s) = Inr q1"
    and k: "done_list q1 @ immediate q1 = done_list (qu s) @ immediate (qu s)"
      "processing q1 = processing (qu s)" "bins q1 = bins (qu s)" "pc q1 = pc (qu s)"
      "size_done q1 = of_nat (length (done_list q1))"
      "size_imed q1 = of_nat (length (immediate q1))"
    and idle: "done_list q1 = [] \<longrightarrow> immediate q1 = [] \<or> counter_imed q1 \<noteq> 0"
    and moved: "immediate (qu s) \<noteq> [] \<and> counter_imed (qu s) \<noteq> 0 \<longrightarrow> done_list q1 \<noteq> []"
    and dl: "length (done_list (qu s)) \<le> length (done_list q1)"
    by blast
  let ?s1 = "s\<lparr>qu := q1\<rparr>"
  from ahead_after_immediates [OF a i k] have a1: "ahead_state ?s1"
    and k1: "out_order ?s1 = out_order s" "work_left ?s1 = work_left s"
      "processing_left ?s1 = processing_left s" "rel_of ?s1 = rel_of s" "q_nodes q1 = q_nodes (qu s)"
    by blast+
  from ahead_advance_priority_queue [OF a1] obtain s2 where
    p: "priorityq_advance_priority_queue ?s1 = Inr s2" and a2: "ahead_state s2"
    and k2: "out_order s2 = out_order ?s1" "done_list (qu s2) = done_list (qu ?s1)"
      "counter_imed (qu s2) = counter_imed (qu ?s1)" "rel_of s2 = rel_of ?s1"
      "pc (qu ?s1) \<le> pc (qu s2)"
      "pc (qu s2) = pc (qu ?s1) \<or> (\<exists>b\<in>set (q_nodes (qu ?s1)). pc (qu s2) \<le> rel_of ?s1 b)"
      "set (q_nodes (qu s2)) \<subseteq> set (q_nodes (qu ?s1))"
    and dec: "q_nodes (qu ?s1) \<noteq> [] \<longrightarrow>
         work_left s2 < work_left ?s1
         \<or> (work_left s2 = work_left ?s1 \<and> processing_left s2 < processing_left ?s1)"
    and same: "q_nodes (qu ?s1) = [] \<longrightarrow> s2 = ?s1"
    by blast
  have meas: "(s2, s) \<in> measures [work_left, processing_left, imed_idle]" if d: "done_list (qu s2) = []"
  proof (cases "q_nodes (qu s) = []")
    case False
    with dec k1 show ?thesis by auto
  next
    case True
    with same k1 have s2: "s2 = ?s1" by simp
    from d k2(2) have d1: "done_list q1 = []" by simp
    with dl have d0: "done_list (qu s) = []" by simp
    with d1 k(1) have im: "immediate q1 = immediate (qu s)" by simp
    from ne True d0 have ine: "immediate (qu s) \<noteq> []"
      by (simp add: all_nodes_def)
    with moved d1 have c0: "counter_imed (qu s) = 0" by blast
    from idle d1 im ine have c1: "counter_imed q1 \<noteq> 0" by simp
    have "imed_idle s = 1" "imed_idle ?s1 = 0"
      using ine c0 c1 im by (simp_all add: imed_idle_def)
    with s2 k1 show ?thesis by simp
  qed
  show ?thesis
    using i p a2 k1 k2 k(4) meas
    by (intro exI [of _ q1] exI [of _ s2]) auto
qed


lemma ahead_loop:
  assumes "ahead_state s" "all_nodes (qu s) \<noteq> []"
  shows "\<exists>fuel n rest s2.
      dequeue_loop fuel s = Inr (n, node_clear n (s2\<lparr>qu := (qu s2)\<lparr>done_list := rest\<rparr>\<rparr>))
    \<and> ahead_state s2 \<and> done_list (qu s2) = n # rest
    \<and> out_order s2 = out_order s \<and> rel_of s2 = rel_of s
    \<and> pc (qu s) \<le> pc (qu s2)
    \<and> (pc (qu s2) = pc (qu s) \<or> (\<exists>b\<in>set (q_nodes (qu s)). pc (qu s2) \<le> rel_of s b))"
  using assms
proof (induction s rule: wf_induct_rule [OF wf_measures [of "[work_left, processing_left, imed_idle]"]])
  case (1 s)
  from ahead_iteration [OF "1.prems"] obtain q1 s2 where
    i: "priorityq_advance_immediates (qu s) = Inr q1"
    and p: "priorityq_advance_priority_queue (s\<lparr>qu := q1\<rparr>) = Inr s2"
    and a2: "ahead_state s2" and o2: "out_order s2 = out_order s" and r2: "rel_of s2 = rel_of s"
    and le2: "pc (qu s) \<le> pc (qu s2)"
    and b2: "pc (qu s2) = pc (qu s) \<or> (\<exists>b\<in>set (q_nodes (qu s)). pc (qu s2) \<le> rel_of s b)"
    and q2: "set (q_nodes (qu s2)) \<subseteq> set (q_nodes (qu s))"
    and m: "done_list (qu s2) = [] \<longrightarrow> (s2, s) \<in> measures [work_left, processing_left, imed_idle]"
    by blast
  show ?case
  proof (cases "done_list (qu s2)")
    case (Cons n rest)
    have "dequeue_loop (Suc 0) s = Inr (n, node_clear n (s2\<lparr>qu := (qu s2)\<lparr>done_list := rest\<rparr>\<rparr>))"
      using i p Cons by simp
    with a2 Cons o2 r2 le2 b2 show ?thesis by blast
  next
    case Nil
    with m have ms: "(s2, s) \<in> measures [work_left, processing_left, imed_idle]" by simp
    have "length (all_nodes (qu s2)) = length (all_nodes (qu s))"
      using o2 length_out_order [of s2] length_out_order [of s] by simp
    with "1.prems"(2) have ne2: "all_nodes (qu s2) \<noteq> []" by auto
    from "1.IH" [OF ms a2 ne2] obtain fuel n rest s3 where
      l: "dequeue_loop fuel s2 = Inr (n, node_clear n (s3\<lparr>qu := (qu s3)\<lparr>done_list := rest\<rparr>\<rparr>))"
      and a3: "ahead_state s3" and d3: "done_list (qu s3) = n # rest"
      and o3: "out_order s3 = out_order s2" and r3: "rel_of s3 = rel_of s2"
      and le3: "pc (qu s2) \<le> pc (qu s3)"
      and b3: "pc (qu s3) = pc (qu s2) \<or> (\<exists>b\<in>set (q_nodes (qu s2)). pc (qu s3) \<le> rel_of s2 b)"
      by blast
    have "dequeue_loop (Suc fuel) s = Inr (n, node_clear n (s3\<lparr>qu := (qu s3)\<lparr>done_list := rest\<rparr>\<rparr>))"
      using i p Nil l by simp
    moreover have "pc (qu s) \<le> pc (qu s3)"
      using le2 le3 by simp
    moreover have "pc (qu s3) = pc (qu s) \<or> (\<exists>b\<in>set (q_nodes (qu s)). pc (qu s3) \<le> rel_of s b)"
      using b2 b3 q2 r2 by auto
    ultimately show ?thesis
      using a3 d3 o3 o2 r3 r2 by (metis (no_types))
  qed
qed

text \<open>More fuel does not change a result.\<close>

lemma dequeue_loop_fuel:
  "dequeue_loop fuel s = Inr r \<Longrightarrow> fuel \<le> fuel' \<Longrightarrow> dequeue_loop fuel' s = Inr r"
proof (induction fuel arbitrary: s fuel')
  case 0
  then show ?case by simp
next
  case (Suc fuel)
  from Suc.prems(2) obtain k where k: "fuel' = Suc k" "fuel \<le> k"
    by (cases fuel') simp_all
  from Suc.prems(1) obtain q1 where i: "priorityq_advance_immediates (qu s) = Inr q1"
    by (auto split: sum.splits)
  from Suc.prems(1) i obtain s2 where a: "priorityq_advance_priority_queue (s\<lparr>qu := q1\<rparr>) = Inr s2"
    by (auto split: sum.splits)
  show ?case
  proof (cases "done_list (qu s2)")
    case Nil
    with Suc.prems(1) i a have "dequeue_loop fuel s2 = Inr r" by simp
    from Suc.IH [OF this k(2)] show ?thesis
      using i a Nil k(1) by simp
  next
    case (Cons m rest)
    with Suc.prems(1) i a k(1) show ?thesis by simp
  qed
qed

lemma dequeue_fuel:
  assumes "priorityq_dequeue fuel s = Inr r" "fuel \<le> fuel'"
  shows "priorityq_dequeue fuel' s = Inr r"
proof (cases "size_pq (qu s) \<noteq> 0")
  case False
  with assms show ?thesis by (simp add: priorityq_dequeue_def)
next
  case True
  with assms(1) obtain x where l: "dequeue_loop fuel s = Inr x"
    by (auto simp: priorityq_dequeue_def split: sum.splits)
  from dequeue_loop_fuel [OF l assms(2)] l assms(1) True show ?thesis
    by (simp add: priorityq_dequeue_def)
qed

lemma apply_op_fuel:
  assumes "apply_op fuel s x = Inr r" "fuel \<le> fuel'"
  shows "apply_op fuel' s x = Inr r"
proof (cases x)
  case Dequeue
  with assms(1) obtain y where d: "priorityq_dequeue fuel s = Inr y"
    by (auto split: sum.splits)
  from dequeue_fuel [OF d assms(2)] d assms(1) Dequeue show ?thesis by simp
qed (use assms in simp_all)

lemma run_fuel:
  "run fuel xs s = Inr r \<Longrightarrow> fuel \<le> fuel' \<Longrightarrow> run fuel' xs s = Inr r"
proof (induction xs arbitrary: s r)
  case Nil
  then show ?case by simp
next
  case (Cons x xs)
  from Cons.prems(1) obtain y s1 where a: "apply_op fuel s x = Inr (y, s1)"
    by (auto split: sum.splits)
  from Cons.prems(1) a obtain z where b: "run fuel xs s1 = Inr z"
    by (auto split: sum.splits)
  from apply_op_fuel [OF a Cons.prems(2)] Cons.IH [OF b Cons.prems(2)] Cons.prems(1) a b
  show ?case by simp
qed

lemma run_append_Inr:
  assumes "run f1 xs s = Inr (r1, s1)" "run f2 ys s1 = Inr (r2, s2)"
  shows "run (max f1 f2) (xs @ ys) s = Inr (r1 @ r2, s2)"
  using run_fuel [OF assms(1), of "max f1 f2"] run_fuel [OF assms(2), of "max f1 f2"]
  by (simp add: run_append)


text \<open>A call of \<^verbatim>\<open>priorityq_dequeue\<close>.\<close>

lemma ahead_size_pq:
  assumes a: "ahead_state s"
  shows "size_pq (qu s) = of_nat (length (all_nodes (qu s)))"
  using wf_size [OF ahead_wf [OF a]] wf_size_q [OF ahead_wf [OF a]]
    ahead_size_done [OF a] ahead_size_imed [OF a]
  by (simp add: all_nodes_def)

lemma ahead_dequeue_empty:
  assumes a: "ahead_state s" and e: "all_nodes (qu s) = []"
  shows "priorityq_dequeue fuel s = Inr (None, s)"
  using ahead_size_pq [OF a] e by (simp add: priorityq_dequeue_def)

lemma ahead_dequeue:
  assumes a: "ahead_state s" and ne: "all_nodes (qu s) \<noteq> []"
  shows "\<exists>fuel s'. priorityq_dequeue fuel s = Inr (Some (hd (out_order s)), s')
    \<and> ahead_state s' \<and> out_order s' = tl (out_order s) \<and> rel_of s' = rel_of s
    \<and> pc (qu s) \<le> pc (qu s')
    \<and> (pc (qu s') = pc (qu s) \<or> (\<exists>b\<in>set (q_nodes (qu s)). pc (qu s') \<le> rel_of s b))
    \<and> rel_of s (hd (out_order s)) \<le> pc (qu s')"
proof -
  from ahead_loop [OF a ne] obtain fuel n rest s2 where
    l: "dequeue_loop fuel s = Inr (n, node_clear n (s2\<lparr>qu := (qu s2)\<lparr>done_list := rest\<rparr>\<rparr>))"
    and a2: "ahead_state s2" and d2: "done_list (qu s2) = n # rest"
    and o2: "out_order s2 = out_order s" and r2: "rel_of s2 = rel_of s"
    and le2: "pc (qu s) \<le> pc (qu s2)"
    and b2: "pc (qu s2) = pc (qu s) \<or> (\<exists>b\<in>set (q_nodes (qu s)). pc (qu s2) \<le> rel_of s b)"
    by blast
  define s1 where "s1 = node_clear n (s2\<lparr>qu := (qu s2)\<lparr>done_list := rest\<rparr>\<rparr>)"
  define s' where "s' = s1\<lparr>qu := (qu s1)\<lparr>size_done := size_done (qu s1) - 1,
                                   size_pq := size_pq (qu s1) - 1\<rparr>,
                mem := (mem s1)(n := (mem s1 n)\<lparr>info_loc := LOC_NONE\<rparr>)\<rparr>"
  have "length (all_nodes (qu s)) < 2 ^ 32"
    by (rule ahead_count [OF a])
  with ne have "size_pq (qu s) \<noteq> 0"
    using ahead_size_pq [OF a] word32_of_nat_eq_0 [of "length (all_nodes (qu s))"] by simp
  then have dq: "priorityq_dequeue fuel s = Inr (Some n, s')"
    using l by (simp add: priorityq_dequeue_def s'_def s1_def)
  have hd: "hd (out_order s) = n"
    using o2 [symmetric] d2 by (simp add: out_order_def)
  have r': "rel_of s' = rel_of s"
    using r2 by (simp add: rel_of_def fun_eq_iff node_clear_def s'_def s1_def)
  have Q': "q_nodes (qu s') = q_nodes (qu s2)"
    by (simp add: q_nodes_def node_clear_def s'_def s1_def)
  have qf: "done_list (qu s') = rest" "immediate (qu s') = immediate (qu s2)"
    "processing (qu s') = processing (qu s2)" "bins (qu s') = bins (qu s2)"
    "pc (qu s') = pc (qu s2)" "size_imed (qu s') = size_imed (qu s2)"
    "size_done (qu s') = size_done (qu s2) - 1"
    by (simp_all add: node_clear_def s'_def s1_def)
  have a': "ahead_state s'"
  proof (rule ahead_stateI)
    show "wf_state s'"
      using ahead_wf [OF a] dq by (rule wf_dequeue)
    show "length (all_nodes (qu s')) < 2 ^ 32"
      using ahead_count [OF a2] by (simp add: all_nodes_def qf Q' d2)
    show "size_done (qu s') = of_nat (length (done_list (qu s')))"
      using ahead_size_done [OF a2] by (simp add: qf d2)
    show "size_imed (qu s') = of_nat (length (immediate (qu s')))"
      using ahead_size_imed [OF a2] by (simp add: qf)
    show "top_diff (pc (qu s')) (rel_of s' b) j" if "j < 8" "b \<in> set (bins (qu s') ! j)" for j b
      using ahead_bins [OF a2 that(1), of b] that(2) by (simp add: r' qf r2)
    show "pc (qu s') \<le> rel_of s' b" if "b \<in> set (processing (qu s'))" for b
      using ahead_processing [OF a2, of b] that by (simp add: r' qf r2)
    show "rel_of s' b \<le> pc (qu s')"
      if "b \<in> set (done_list (qu s') @ immediate (qu s'))" for b
      using ahead_front [OF a2, of b] that by (simp add: r' qf r2 d2)
    show "distinct (map (rel_of s') (q_nodes (qu s')))"
      using ahead_distinct [OF a2] by (simp add: r' Q' r2)
  qed
  have o': "out_order s' = tl (out_order s)"
    unfolding o2 [symmetric] by (simp add: out_order_def r' Q' qf d2 r2)
  have "rel_of s n \<le> pc (qu s2)"
    using ahead_front [OF a2, of n] by (simp add: d2 r2)
  with dq a' o' r' le2 b2 show ?thesis
    unfolding hd qf [symmetric] by blast
qed

end
